theory Spec2Isabelle
  imports Main "HOL-Library.AList"
begin

section \<open>The update dispatcher (\<^verbatim>\<open>tele.py\<close>, class \<^verbatim>\<open>Dispatcher\<close>)\<close>

text \<open>
  Handler objects are referred to by their identity (\<^verbatim>\<open>list.remove\<close> compares
  objects, which for handler objects is identity); a table \<open>H\<close> gives, for each
  identity, what the object does. \<^verbatim>\<open>self.groups\<close> is an ordered dictionary from the
  group number to the list of handlers of that group, modelled as an association list
  in the dictionary's iteration order.
\<close>

type_synonym hid = nat
type_synonym upd = nat
type_synonym entities = "nat list"
type_synonym groups = "(int \<times> hid list) list"

text \<open>The packet \<^verbatim>\<open>(update, users, chats)\<close> taken from \<^verbatim>\<open>updates_queue\<close>.\<close>

record packet =
  update :: upd
  users :: entities
  chats :: entities

text \<open>
  \<^verbatim>\<open>add_handler\<close> and \<^verbatim>\<open>remove_handler\<close> each create a task that changes
  \<^verbatim>\<open>self.groups\<close> under \<^verbatim>\<open>self.mutex\<close>. Such a task runs while another
  coroutine is suspended, for instance while a filter or a callback of the dispatch
  pass awaits; \<open>regop\<close> is one such task.
\<close>

datatype regop = AddHandler hid int | RemoveHandler hid int

text \<open>The three branches of the \<^verbatim>\<open>isinstance\<close> test on a handler.\<close>

datatype hkind = NewMessageEvent | Raw | OtherKind

text \<open>
  What awaiting \<^verbatim>\<open>handler.filter(update)\<close> does: returns a true or a false value,
  raises an \<^verbatim>\<open>Exception\<close>, or raises a \<^verbatim>\<open>BaseException\<close> that is no
  \<^verbatim>\<open>Exception\<close> (\<^verbatim>\<open>asyncio.CancelledError\<close>).
\<close>

datatype filter_result = FTrue | FFalse | FRaise string | FCancelled

text \<open>
  What running \<^verbatim>\<open>handler.callback(client, *args)\<close> does: returns, raises
  \<^verbatim>\<open>events.StopPropagation\<close>, raises another \<^verbatim>\<open>Exception\<close>, or raises
  \<^verbatim>\<open>asyncio.CancelledError\<close>.
\<close>

datatype cb_result = CReturn | CStopPropagation | CRaise string | CCancelled

datatype args = Args1 upd | Args3 upd entities entities

text \<open>
  A filter and a callback are coroutines: besides their result they give the
  registration tasks that ran to completion while they were suspended.
\<close>

record handler =
  kind :: hkind
  hfilter :: "upd \<Rightarrow> filter_result \<times> regop list"
  callback :: "args \<Rightarrow> cb_result \<times> regop list"

datatype py_error = ValueError | TypeError | KeyError | RuntimeError | AttributeError

definition group_handlers :: "groups \<Rightarrow> int \<Rightarrow> hid list" where
  "group_handlers gs g = (case map_of gs g of None \<Rightarrow> [] | Some hs \<Rightarrow> hs)"

definition add_handler :: "hid \<Rightarrow> int \<Rightarrow> groups \<Rightarrow> groups" where
  "add_handler h g gs =
     (let gs' = (if g \<notin> set (map fst gs) then sort_key fst (gs @ [(g, [])]) else gs)
      in map (\<lambda>(i, hs). if i = g then (i, hs @ [h]) else (i, hs)) gs')"

definition remove_handler :: "hid \<Rightarrow> int \<Rightarrow> groups \<Rightarrow> py_error + groups" where
  "remove_handler h g gs =
     (if g \<notin> set (map fst gs) then Inl ValueError
      else if h \<notin> set (group_handlers gs g) then Inl ValueError
      else Inr (map (\<lambda>(i, hs). if i = g then (i, remove1 h hs) else (i, hs)) gs))"

text \<open>
  A registration task whose body raises ends with that exception stored in the task,
  which nobody awaits: the registry is left as it was.
\<close>

fun run_op :: "regop \<Rightarrow> groups \<Rightarrow> groups" where
  "run_op (AddHandler h g) gs = add_handler h g gs"
| "run_op (RemoveHandler h g) gs =
     (case remove_handler h g gs of Inl _ \<Rightarrow> gs | Inr gs' \<Rightarrow> gs')"

definition run_ops :: "regop list \<Rightarrow> groups \<Rightarrow> groups" where
  "run_ops ops gs = foldl (\<lambda>l op. run_op op l) gs ops"

text \<open>What a pass does that can be observed.\<close>

datatype event =
    Visit int hid
  | FilterWarning hid string
  | Invoke hid args
  | CallbackError hid string

text \<open>
  How the two nested loops over one update are left: no handler matched; a callback
  ran and the loops were left through the two \<^verbatim>\<open>break\<close>s; the callback raised
  \<^verbatim>\<open>StopPropagation\<close>, caught around the loops; a cancellation went through.
\<close>

datatype pass_end = NoMatch | Handled | Stopped | Cancelled

text \<open>
  The body of the inner loop for one handler: \<open>None\<close> is \<^verbatim>\<open>continue\<close>. The live
  registry is threaded through, since registration tasks run while the filter or the
  callback is suspended.
\<close>

definition run_callback ::
  "(hid \<Rightarrow> handler) \<Rightarrow> hid \<Rightarrow> args \<Rightarrow> groups \<Rightarrow> pass_end option \<times> event list \<times> groups" where
  "run_callback H h a live =
     (case callback (H h) a of (r, ops) \<Rightarrow>
        (case r of
           CReturn \<Rightarrow> (Some Handled, [Invoke h a], run_ops ops live)
         | CStopPropagation \<Rightarrow> (Some Stopped, [Invoke h a], run_ops ops live)
         | CRaise e \<Rightarrow> (Some Handled, [Invoke h a, CallbackError h e], run_ops ops live)
         | CCancelled \<Rightarrow> (Some Cancelled, [Invoke h a], run_ops ops live)))"

definition try_handler ::
  "(hid \<Rightarrow> handler) \<Rightarrow> packet \<Rightarrow> int \<Rightarrow> hid \<Rightarrow> groups \<Rightarrow> pass_end option \<times> event list \<times> groups" where
  "try_handler H p g h live =
     (case kind (H h) of
        NewMessageEvent \<Rightarrow>
          (case hfilter (H h) (update p) of (fr, ops) \<Rightarrow>
             (case fr of
                FRaise e \<Rightarrow> (None, [Visit g h, FilterWarning h e], run_ops ops live)
              | FCancelled \<Rightarrow> (Some Cancelled, [Visit g h], run_ops ops live)
              | FFalse \<Rightarrow> (None, [Visit g h], run_ops ops live)
              | FTrue \<Rightarrow>
                  (case run_callback H h (Args1 (update p)) (run_ops ops live) of
                     (e, evs, live') \<Rightarrow> (e, Visit g h # evs, live'))))
      | Raw \<Rightarrow>
          (case run_callback H h (Args3 (update p) (users p) (chats p)) live of
             (e, evs, live') \<Rightarrow> (e, Visit g h # evs, live'))
      | OtherKind \<Rightarrow> (None, [Visit g h], live))"

fun run_group ::
  "(hid \<Rightarrow> handler) \<Rightarrow> packet \<Rightarrow> int \<Rightarrow> hid list \<Rightarrow> groups \<Rightarrow> pass_end \<times> event list \<times> groups" where
  "run_group H p g [] live = (NoMatch, [], live)"
| "run_group H p g (h # hs) live =
     (case try_handler H p g h live of
        (None, evs, live') \<Rightarrow>
          (case run_group H p g hs live' of (e, evs', l) \<Rightarrow> (e, evs @ evs', l))
      | (Some e, evs, live') \<Rightarrow> (e, evs, live'))"

fun run_groups ::
  "(hid \<Rightarrow> handler) \<Rightarrow> packet \<Rightarrow> groups \<Rightarrow> groups \<Rightarrow> pass_end \<times> event list \<times> groups" where
  "run_groups H p [] live = (NoMatch, [], live)"
| "run_groups H p ((g, hs) # rest) live =
     (case run_group H p g hs live of
        (NoMatch, evs, live') \<Rightarrow>
          (case run_groups H p rest live' of (e, evs', l) \<Rightarrow> (e, evs @ evs', l))
      | (e, evs, live') \<Rightarrow> (e, evs, live'))"

text \<open>
  One pass: \<^verbatim>\<open>groups = {i: g[:] for i, g in self.groups.items()}\<close> copies the
  dictionary and every list under the mutex; the loops then run over the copy.
\<close>

definition snapshot :: "groups \<Rightarrow> groups" where
  "snapshot gs = map (\<lambda>(i, g). (i, g)) gs"

definition dispatch ::
  "(hid \<Rightarrow> handler) \<Rightarrow> packet \<Rightarrow> groups \<Rightarrow> pass_end \<times> event list \<times> groups" where
  "dispatch H p live = run_groups H p (snapshot live) live"

text \<open>
  The worker. The queue is given as the list of what \<^verbatim>\<open>updates_queue.get()\<close> will
  return, each item with the registration tasks that run while the worker waits for it.
  \<open>None\<close> is the stop marker. An empty list leaves the worker waiting.
\<close>

datatype wstatus = Waiting | Exited | Died

fun handler_worker ::
  "(hid \<Rightarrow> handler) \<Rightarrow> groups \<Rightarrow> (regop list \<times> packet option) list \<Rightarrow> wstatus \<times> event list \<times> groups" where
  "handler_worker H gs [] = (Waiting, [], gs)"
| "handler_worker H gs ((pre, None) # q) = (Exited, [], run_ops pre gs)"
| "handler_worker H gs ((pre, Some p) # q) =
     (case dispatch H p (run_ops pre gs) of
        (Cancelled, evs, gs') \<Rightarrow> (Died, evs, gs')
      | (e, evs, gs') \<Rightarrow>
          (case handler_worker H gs' q of (st, evs', gs'') \<Rightarrow> (st, evs @ evs', gs'')))"

subsection \<open>Notions used to state the dispatcher's properties\<close>

text \<open>
  The handlers of a registry in the order in which the two nested loops reach them, each
  with its group number.
\<close>

definition flat :: "groups \<Rightarrow> (int \<times> hid) list" where
  "flat gs = concat (map (\<lambda>(g, hs). map (Pair g) hs) gs)"

text \<open>
  A handler matches an update when the inner loop gets to its callback: \<open>args\<close> is set.
  A filter that raises an \<^verbatim>\<open>Exception\<close> does not match (warning, \<^verbatim>\<open>continue\<close>).
\<close>

definition matches :: "(hid \<Rightarrow> handler) \<Rightarrow> packet \<Rightarrow> hid \<Rightarrow> bool" where
  "matches H p h =
     (case kind (H h) of
        NewMessageEvent \<Rightarrow> fst (hfilter (H h) (update p)) = FTrue
      | Raw \<Rightarrow> True
      | OtherKind \<Rightarrow> False)"

definition filter_cancelled :: "(hid \<Rightarrow> handler) \<Rightarrow> packet \<Rightarrow> hid \<Rightarrow> bool" where
  "filter_cancelled H p h =
     (kind (H h) = NewMessageEvent \<and> fst (hfilter (H h) (update p)) = FCancelled)"

text \<open>The handlers a pass looked at, and the callbacks it invoked, read off its events.\<close>

fun visits :: "event list \<Rightarrow> (int \<times> hid) list" where
  "visits [] = []"
| "visits (Visit g h # evs) = (g, h) # visits evs"
| "visits (_ # evs) = visits evs"

fun invoked :: "event list \<Rightarrow> hid list" where
  "invoked [] = []"
| "invoked (Invoke h a # evs) = h # invoked evs"
| "invoked (_ # evs) = invoked evs"

text \<open>The elements of a list up to and including the first one that satisfies \<open>P\<close>.\<close>

fun upto_first :: "('a \<Rightarrow> bool) \<Rightarrow> 'a list \<Rightarrow> 'a list" where
  "upto_first P [] = []"
| "upto_first P (x # xs) = (if P x then [x] else x # upto_first P xs)"

text \<open>
  The handlers registered in group \<open>g\<close> by a sequence of registration tasks, in the
  order of registration; a removal takes out the first occurrence.
\<close>

fun registered_step :: "int \<Rightarrow> hid list \<Rightarrow> regop \<Rightarrow> hid list" where
  "registered_step g hs (AddHandler h g') = (if g' = g then hs @ [h] else hs)"
| "registered_step g hs (RemoveHandler h g') = (if g' = g then remove1 h hs else hs)"

definition registered :: "regop list \<Rightarrow> int \<Rightarrow> hid list" where
  "registered ops g = foldl (registered_step g) [] ops"

text \<open>The dictionary's keys are in strictly ascending order.\<close>

definition keys_ok :: "groups \<Rightarrow> bool" where
  "keys_ok gs = sorted_wrt (<) (map fst gs)"

text \<open>The errors logged for callbacks, and the arguments a handler's callback is given.\<close>

fun callback_errors :: "event list \<Rightarrow> (hid \<times> string) list" where
  "callback_errors [] = []"
| "callback_errors (CallbackError h e # evs) = (h, e) # callback_errors evs"
| "callback_errors (_ # evs) = callback_errors evs"

definition handler_args :: "(hid \<Rightarrow> handler) \<Rightarrow> packet \<Rightarrow> hid \<Rightarrow> args" where
  "handler_args H p h =
     (case kind (H h) of Raw \<Rightarrow> Args3 (update p) (users p) (chats p) | _ \<Rightarrow> Args1 (update p))"

text \<open>
  A small registry: two message handlers in group 0 (the second matches and its callback
  raises), and a raw handler in group 1.
\<close>

definition example_H :: "hid \<Rightarrow> handler" where
  "example_H h =
     (if h = 11 then \<lparr>kind = NewMessageEvent, hfilter = (\<lambda>u. (FFalse, [])),
                     callback = (\<lambda>a. (CReturn, []))\<rparr>
      else if h = 12 then \<lparr>kind = NewMessageEvent, hfilter = (\<lambda>u. (FTrue, [RemoveHandler 13 1])),
                     callback = (\<lambda>a. (CRaise ''boom'', [AddHandler 14 0]))\<rparr>
      else \<lparr>kind = Raw, hfilter = (\<lambda>u. (FTrue, [])), callback = (\<lambda>a. (CReturn, []))\<rparr>)"

definition example_ops :: "regop list" where
  "example_ops = [AddHandler 13 1, AddHandler 11 0, AddHandler 12 0]"

definition example_packet :: packet where
  "example_packet = \<lparr>update = 7, users = [], chats = []\<rparr>"

subsection \<open>The dispatcher on the event loop\<close>

text \<open>
  \<^verbatim>\<open>add_handler\<close> and \<^verbatim>\<open>remove_handler\<close> do not change \<^verbatim>\<open>self.groups\<close>: they
  return \<^verbatim>\<open>self.loop.create_task(fn())\<close>, and the registry changes when that task runs.
  On the event loop a task runs only while the coroutine that is running is suspended.
  \<^verbatim>\<open>updates_queue.get()\<close> on a queue that is not empty and the acquisition of the
  mutex, which no task holds across a suspension, do not suspend the worker; a filter or
  a callback suspends it only where it awaits something that is not ready.

  What a filter or a callback does to the registry is therefore a list of steps: a call
  of \<^verbatim>\<open>add_handler\<close> or \<^verbatim>\<open>remove_handler\<close>, which only creates a task; and a
  suspension, during which the tasks created so far run in the order of their creation,
  followed by the registration tasks \<open>others\<close> made by other coroutines, while the tasks
  \<open>left\<close> have been created by other coroutines and have not run when the worker goes on.
\<close>

datatype act = Call regop | Suspend "regop list" "regop list"

text \<open>The live registry and the registration tasks created and not yet run.\<close>

type_synonym loop_state = "groups \<times> regop list"

fun run_act :: "act \<Rightarrow> loop_state \<Rightarrow> loop_state" where
  "run_act (Call op) (live, pending) = (live, pending @ [op])"
| "run_act (Suspend others left) (live, pending) = (run_ops (pending @ others) live, left)"

definition run_acts :: "act list \<Rightarrow> loop_state \<Rightarrow> loop_state" where
  "run_acts acts st = foldl (\<lambda>st a. run_act a st) st acts"

record loop_handler =
  lkind :: hkind
  lfilter :: "upd \<Rightarrow> filter_result \<times> act list"
  lcallback :: "args \<Rightarrow> cb_result \<times> act list"

text \<open>The pass once more, with the steps of the filters and callbacks in place of the
  registration tasks that ran.\<close>

definition loop_callback ::
  "(hid \<Rightarrow> loop_handler) \<Rightarrow> hid \<Rightarrow> args \<Rightarrow> loop_state \<Rightarrow> pass_end option \<times> event list \<times> loop_state" where
  "loop_callback L h a st =
     (case lcallback (L h) a of (r, acts) \<Rightarrow>
        (case r of
           CReturn \<Rightarrow> (Some Handled, [Invoke h a], run_acts acts st)
         | CStopPropagation \<Rightarrow> (Some Stopped, [Invoke h a], run_acts acts st)
         | CRaise e \<Rightarrow> (Some Handled, [Invoke h a, CallbackError h e], run_acts acts st)
         | CCancelled \<Rightarrow> (Some Cancelled, [Invoke h a], run_acts acts st)))"

definition loop_try_handler ::
  "(hid \<Rightarrow> loop_handler) \<Rightarrow> packet \<Rightarrow> int \<Rightarrow> hid \<Rightarrow> loop_state \<Rightarrow>
     pass_end option \<times> event list \<times> loop_state" where
  "loop_try_handler L p g h st =
     (case lkind (L h) of
        NewMessageEvent \<Rightarrow>
          (case lfilter (L h) (update p) of (fr, acts) \<Rightarrow>
             (case fr of
                FRaise e \<Rightarrow> (None, [Visit g h, FilterWarning h e], run_acts acts st)
              | FCancelled \<Rightarrow> (Some Cancelled, [Visit g h], run_acts acts st)
              | FFalse \<Rightarrow> (None, [Visit g h], run_acts acts st)
              | FTrue \<Rightarrow>
                  (case loop_callback L h (Args1 (update p)) (run_acts acts st) of
                     (e, evs, st') \<Rightarrow> (e, Visit g h # evs, st'))))
      | Raw \<Rightarrow>
          (case loop_callback L h (Args3 (update p) (users p) (chats p)) st of
             (e, evs, st') \<Rightarrow> (e, Visit g h # evs, st'))
      | OtherKind \<Rightarrow> (None, [Visit g h], st))"

fun loop_run_group ::
  "(hid \<Rightarrow> loop_handler) \<Rightarrow> packet \<Rightarrow> int \<Rightarrow> hid list \<Rightarrow> loop_state \<Rightarrow>
     pass_end \<times> event list \<times> loop_state" where
  "loop_run_group L p g [] st = (NoMatch, [], st)"
| "loop_run_group L p g (h # hs) st =
     (case loop_try_handler L p g h st of
        (None, evs, st') \<Rightarrow>
          (case loop_run_group L p g hs st' of (e, evs', st'') \<Rightarrow> (e, evs @ evs', st''))
      | (Some e, evs, st') \<Rightarrow> (e, evs, st'))"

fun loop_run_groups ::
  "(hid \<Rightarrow> loop_handler) \<Rightarrow> packet \<Rightarrow> groups \<Rightarrow> loop_state \<Rightarrow>
     pass_end \<times> event list \<times> loop_state" where
  "loop_run_groups L p [] st = (NoMatch, [], st)"
| "loop_run_groups L p ((g, hs) # rest) st =
     (case loop_run_group L p g hs st of
        (NoMatch, evs, st') \<Rightarrow>
          (case loop_run_groups L p rest st' of (e, evs', st'') \<Rightarrow> (e, evs @ evs', st''))
      | (e, evs, st') \<Rightarrow> (e, evs, st'))"

text \<open>The copy is taken from the live registry as it is when the pass starts.\<close>

definition loop_dispatch ::
  "(hid \<Rightarrow> loop_handler) \<Rightarrow> packet \<Rightarrow> loop_state \<Rightarrow> pass_end \<times> event list \<times> loop_state" where
  "loop_dispatch L p st = loop_run_groups L p (snapshot (fst st)) st"

text \<open>
  How an item comes out of \<^verbatim>\<open>updates_queue.get()\<close>: it was in the queue already and
  the worker goes on at once, or the queue was empty and the worker was suspended.
\<close>

datatype arrival = Ready | Waited "regop list" "regop list"

fun arrive :: "arrival \<Rightarrow> loop_state \<Rightarrow> loop_state" where
  "arrive Ready st = st"
| "arrive (Waited others left) st = run_act (Suspend others left) st"

text \<open>The worker; with nothing more to come it stays suspended in \<^verbatim>\<open>get()\<close>.\<close>

fun loop_worker ::
  "(hid \<Rightarrow> loop_handler) \<Rightarrow> loop_state \<Rightarrow> (arrival \<times> packet option) list \<Rightarrow>
     wstatus \<times> event list \<times> loop_state" where
  "loop_worker L st [] = (Waiting, [], run_act (Suspend [] []) st)"
| "loop_worker L st ((a, None) # q) = (Exited, [], arrive a st)"
| "loop_worker L st ((a, Some p) # q) =
     (case loop_dispatch L p (arrive a st) of
        (Cancelled, evs, st') \<Rightarrow> (Died, evs, st')
      | (e, evs, st') \<Rightarrow>
          (case loop_worker L st' q of (w, evs', st'') \<Rightarrow> (w, evs @ evs', st'')))"

text \<open>The handlers without their steps.\<close>

definition forget :: "(hid \<Rightarrow> loop_handler) \<Rightarrow> hid \<Rightarrow> handler" where
  "forget L h =
     \<lparr>kind = lkind (L h), hfilter = (\<lambda>u. (fst (lfilter (L h) u), [])),
      callback = (\<lambda>a. (fst (lcallback (L h) a), []))\<rparr>"

text \<open>
  The steps taken during one handler's turn, and during a whole pass over the handlers
  \<open>hs\<close> in order.
\<close>

definition handler_acts :: "(hid \<Rightarrow> loop_handler) \<Rightarrow> packet \<Rightarrow> hid \<Rightarrow> act list" where
  "handler_acts L p h =
     (case lkind (L h) of
        NewMessageEvent \<Rightarrow>
          (case lfilter (L h) (update p) of (fr, acts) \<Rightarrow>
             acts @ (if fr = FTrue then snd (lcallback (L h) (Args1 (update p))) else []))
      | Raw \<Rightarrow> snd (lcallback (L h) (Args3 (update p) (users p) (chats p)))
      | OtherKind \<Rightarrow> [])"

fun pass_acts :: "(hid \<Rightarrow> loop_handler) \<Rightarrow> packet \<Rightarrow> hid list \<Rightarrow> act list" where
  "pass_acts L p [] = []"
| "pass_acts L p (h # hs) =
     handler_acts L p h @
     (if matches (forget L) p h \<or> filter_cancelled (forget L) p h then []
      else pass_acts L p hs)"

text \<open>
  Handler 31 matches update 41 only, and its callback registers handler 32 and returns
  without awaiting; handler 32 takes every update. Update 42 is in the queue when the
  first pass ends; the worker has to wait for update 43.
\<close>

definition example_L :: "hid \<Rightarrow> loop_handler" where
  "example_L h =
     (if h = 31 then
        \<lparr>lkind = NewMessageEvent, lfilter = (\<lambda>u. (if u = 41 then FTrue else FFalse, [])),
         lcallback = (\<lambda>a. (CReturn, [Call (AddHandler 32 0)]))\<rparr>
      else \<lparr>lkind = Raw, lfilter = (\<lambda>u. (FTrue, [])), lcallback = (\<lambda>a. (CReturn, []))\<rparr>)"

definition example_queue :: "(arrival \<times> packet option) list" where
  "example_queue =
     [(Waited [AddHandler 31 0] [], Some \<lparr>update = 41, users = [], chats = []\<rparr>),
      (Ready, Some \<lparr>update = 42, users = [], chats = []\<rparr>),
      (Waited [] [], Some \<lparr>update = 43, users = [], chats = []\<rparr>),
      (Ready, None)]"

section \<open>The relay request (\<^verbatim>\<open>link.py\<close>, \<^verbatim>\<open>Link.post\<close>)\<close>

text \<open>
  A parsed TOML document is a dictionary of its top-level keys; \<^verbatim>\<open>d.get(k)\<close> is
  \<open>map_of d k\<close>, and a dictionary is true when it is not empty.
\<close>

type_synonym toml = "(string \<times> string) list"

text \<open>
  \<^verbatim>\<open>event.chat_id\<close> and \<^verbatim>\<open>self.bot\<close> are compared with \<^verbatim>\<open>!=\<close>; a chat is
  named by a number or by a user name, and a number never equals a name.
\<close>

datatype peer = PeerId int | PeerName string

definition bot :: peer where
  "bot = PeerName ''embykeeper_auth_bot''"

record nm_event =
  chat_id :: peer
  message :: nat
  msg_text :: string

datatype cond_result = CondTrue | CondFalse | CondRaise string

text \<open>
  A message object of the chat: one the operation sent, or one that came with an update.
\<close>

datatype msgref = Outbound nat | Inbound nat

text \<open>The texts of the messages \<^verbatim>\<open>post\<close> logs or raises, by their form.\<close>

datatype msg =
    TimeoutMsg string nat nat
  | BlockedMsg
  | ErrorText string
  | RetryMsg string nat nat
  | FloodMsg nat
  | RequestError msg
  | MuteMsg nat
  | SentMsg string
  | DeletedMsg msgref
  | HandlerErrorMsg

datatype exn =
    FloodWaitError nat
  | UserBlockedError
  | TimeoutError
  | OtherError string
  | LinkError msg

text \<open>\<^verbatim>\<open>str(e)\<close>, as far as \<^verbatim>\<open>post\<close> uses it.\<close>

fun str :: "exn \<Rightarrow> msg" where
  "str (LinkError m) = m"
| "str (OtherError t) = ErrorText t"
| "str (FloodWaitError n) = FloodMsg n"
| "str UserBlockedError = ErrorText ''UserBlockedError''"
| "str TimeoutError = ErrorText ''TimeoutError''"

datatype level = Debug | Info | Warning | Error

text \<open>What the operation does to the outside, in order.\<close>

datatype effect =
    Log level msg
  | Sleep nat
  | WaitFor nat
  | SendMessage nat string
  | SendFile nat string
  | Delete msgref
  | AddEventHandler nat
  | RemoveEventHandler nat
  | CacheSet string toml nat

text \<open>
  The client as far as \<^verbatim>\<open>post\<close> touches it: the cache (key to value and expiry
  time), the time in seconds, the messages in the chat with the bot, the registered
  event callbacks (each named by the number of registrations before it), and what was
  done.
\<close>

record client_state =
  cache :: "(string \<times> toml \<times> nat) list"
  clock :: nat
  transcript :: "msgref list"
  handlers :: "nat list"
  next_handler :: nat
  trace :: "effect list"

text \<open>The arguments of \<^verbatim>\<open>post\<close>, with \<^verbatim>\<open>self.instance\<close> and the parser.\<close>

record request =
  cmd :: string
  photo :: bool
  condition :: "(toml \<Rightarrow> cond_result) option"
  timeout :: nat
  retries :: nat
  name :: string
  fail :: bool
  instance_id :: string
  loads :: "string \<Rightarrow> toml option"

text \<open>
  What the platform and the peer do during one attempt: the sending returns the message
  sent or raises; the updates the handler of the attempt is called with; the seconds
  after which they have come.
\<close>

record attempt_env =
  send_result :: "exn + nat"
  inbound :: "nm_event list"
  reply_delay :: nat

definition log :: "level \<Rightarrow> msg \<Rightarrow> client_state \<Rightarrow> client_state" where
  "log l m s = s\<lparr>trace := trace s @ [Log l m]\<rparr>"

definition sleep :: "nat \<Rightarrow> client_state \<Rightarrow> client_state" where
  "sleep n s = s\<lparr>clock := clock s + n, trace := trace s @ [Sleep n]\<rparr>"

definition waited :: "nat \<Rightarrow> client_state \<Rightarrow> client_state" where
  "waited n s = s\<lparr>clock := clock s + n, trace := trace s @ [WaitFor n]\<rparr>"

definition cache_key :: "request \<Rightarrow> string" where
  "cache_key rq = cmd rq @ ''_'' @ instance_id rq"

text \<open>\<^verbatim>\<open>cache.get\<close>: the value of an entry that has not expired, else \<^verbatim>\<open>None\<close>.\<close>

definition cache_get :: "client_state \<Rightarrow> string \<Rightarrow> toml option" where
  "cache_get s k =
     (case map_of (cache s) k of
        None \<Rightarrow> None
      | Some (v, expiry) \<Rightarrow> if clock s < expiry then Some v else None)"

definition cache_set :: "string \<Rightarrow> toml \<Rightarrow> nat \<Rightarrow> client_state \<Rightarrow> client_state" where
  "cache_set k v ttl s =
     s\<lparr>cache := (k, v, clock s + ttl) # cache s, trace := trace s @ [CacheSet k v ttl]\<rparr>"

fun delete_messages :: "msgref list \<Rightarrow> client_state \<Rightarrow> client_state" where
  "delete_messages [] s = s"
| "delete_messages (m # ms) s =
     delete_messages ms
       (s\<lparr>transcript := removeAll m (transcript s),
          trace := trace s @ [Delete m, Log Debug (DeletedMsg m)]\<rparr>)"

text \<open>
  Telethon's \<^verbatim>\<open>add_event_handler\<close> appends the callback to the client's list and
  returns \<^verbatim>\<open>None\<close>, so that \<^verbatim>\<open>handler\<close> is \<^verbatim>\<open>None\<close>; and
  \<^verbatim>\<open>remove_event_handler(handler)\<close> removes the callbacks equal to its argument:
  none. The number that \<open>add_event_handler\<close> gives here names the registration; in
  \<open>remove_event_handler h\<close> it tells which attempt makes the call, and the callback
  stays registered.
\<close>

definition add_event_handler :: "client_state \<Rightarrow> nat \<times> client_state" where
  "add_event_handler s =
     (next_handler s,
      s\<lparr>handlers := handlers s @ [next_handler s], next_handler := Suc (next_handler s),
        trace := trace s @ [AddEventHandler (next_handler s)]\<rparr>)"

definition remove_event_handler :: "nat \<Rightarrow> client_state \<Rightarrow> client_state" where
  "remove_event_handler h s = s\<lparr>trace := trace s @ [RemoveEventHandler h]\<rparr>"

text \<open>
  \<^verbatim>\<open>future.set_result\<close> on a future that is done raises
  \<^verbatim>\<open>InvalidStateError\<close>, which the handler's \<^verbatim>\<open>except\<close> logs.
\<close>

definition set_result :: "toml \<Rightarrow> toml option \<times> client_state \<Rightarrow> toml option \<times> client_state" where
  "set_result t st =
     (case fst st of
        None \<Rightarrow> (Some t, snd st)
      | Some _ \<Rightarrow> (fst st, log Debug HandlerErrorMsg (snd st)))"

text \<open>
  The one-shot handler. The future is \<open>None\<close> while pending. First the body of the
  \<^verbatim>\<open>try\<close> with its \<^verbatim>\<open>except\<close>: a text that does not parse, and a condition
  that raises, are logged.
\<close>

definition handler_try ::
  "request \<Rightarrow> nm_event \<Rightarrow> toml option \<times> client_state \<Rightarrow> toml option \<times> client_state" where
  "handler_try rq ev st =
     (case loads rq (msg_text ev) of
        None \<Rightarrow> (fst st, log Debug HandlerErrorMsg (snd st))
      | Some t \<Rightarrow>
          if map_of t ''command'' = Some (cmd rq) then
            (case condition rq of
               None \<Rightarrow> set_result t st
             | Some c \<Rightarrow>
                 (case c t of
                    CondTrue \<Rightarrow> set_result t st
                  | CondFalse \<Rightarrow> st
                  | CondRaise e \<Rightarrow> (fst st, log Debug HandlerErrorMsg (snd st))))
          else st)"

text \<open>
  The \<^verbatim>\<open>finally\<close> deletes the message on every path through the \<^verbatim>\<open>try\<close>; the
  test on the chat stands before the \<^verbatim>\<open>try\<close>.
\<close>

definition message_handler ::
  "request \<Rightarrow> nm_event \<Rightarrow> toml option \<times> client_state \<Rightarrow> toml option \<times> client_state" where
  "message_handler rq ev st =
     (if chat_id ev \<noteq> bot then st
      else (fst (handler_try rq ev st),
            delete_messages [Inbound (message ev)] (snd (handler_try rq ev st))))"

text \<open>An update arrives: its message is in the chat, and the handler is called with it.\<close>

definition deliver ::
  "request \<Rightarrow> toml option \<times> client_state \<Rightarrow> nm_event \<Rightarrow> toml option \<times> client_state" where
  "deliver rq st ev =
     message_handler rq ev (fst st, (snd st)\<lparr>transcript := Inbound (message ev) # transcript (snd st)\<rparr>)"

datatype 'a step = Continue | Done 'a

text \<open>The inner \<^verbatim>\<open>finally\<close>.\<close>

definition cleanup :: "msgref list \<Rightarrow> nat \<Rightarrow> client_state \<Rightarrow> client_state" where
  "cleanup messages h s = remove_event_handler h (delete_messages messages s)"

text \<open>
  The outer handlers, for an exception that left the inner \<^verbatim>\<open>try\<close>:
  \<^verbatim>\<open>FloodWaitError\<close> sleeps \<^verbatim>\<open>e.seconds\<close> and continues the loop; any other
  \<^verbatim>\<open>Exception\<close> is logged, and raised as a \<^verbatim>\<open>LinkError\<close> when \<^verbatim>\<open>fail\<close>.
\<close>

definition outer_except ::
  "request \<Rightarrow> exn \<Rightarrow> client_state \<Rightarrow> (exn + toml option) step \<times> client_state" where
  "outer_except rq x s =
     (case x of
        FloodWaitError secs \<Rightarrow> (Continue, sleep secs (log Info (FloodMsg secs) s))
      | _ \<Rightarrow>
          (if fail rq then (Done (Inl (LinkError (str x))), log Error (RequestError (str x)) s)
           else (Done (Inr None), log Error (RequestError (str x)) s)))"

text \<open>
  The inner handlers, for an exception raised in the inner \<^verbatim>\<open>try\<close> of iteration
  \<open>r\<close> with the messages sent so far; each path leaves through the \<^verbatim>\<open>finally\<close>.
\<close>

definition inner_except ::
  "request \<Rightarrow> nat \<Rightarrow> exn \<Rightarrow> msgref list \<Rightarrow> nat \<Rightarrow> client_state \<Rightarrow>
     (exn + toml option) step \<times> client_state" where
  "inner_except rq r x messages h s =
     (case x of
        TimeoutError \<Rightarrow>
          (let s1 = delete_messages messages s in
           if r + 1 < retries rq then
             (Continue,
              cleanup messages h (sleep 3 (log Info (RetryMsg (name rq) (r + 1) (retries rq)) s1)))
           else if fail rq then
             outer_except rq (LinkError (TimeoutMsg (name rq) (r + 1) (retries rq)))
               (cleanup messages h s1)
           else
             (Done (Inr None),
              cleanup messages h (log Warning (TimeoutMsg (name rq) (r + 1) (retries rq)) s1)))
      | UserBlockedError \<Rightarrow>
          (if fail rq then outer_except rq (LinkError BlockedMsg) (cleanup messages h s)
           else (Done (Inr None), cleanup messages h (log Error BlockedMsg s)))
      | _ \<Rightarrow> outer_except rq x (cleanup messages h s))"

text \<open>The sending: \<^verbatim>\<open>send_file\<close> with a photo, else \<^verbatim>\<open>send_message\<close>.\<close>

definition sent :: "request \<Rightarrow> nat \<Rightarrow> client_state \<Rightarrow> client_state" where
  "sent rq m s =
     log Debug (SentMsg (cmd rq))
       (s\<lparr>transcript := Outbound m # transcript s,
          trace := trace s @ [if photo rq then SendFile m (cmd rq) else SendMessage m (cmd rq)]\<rparr>)"

text \<open>
  One iteration of the loop \<^verbatim>\<open>for r in range(retries)\<close>.
  \<^verbatim>\<open>asyncio.wait_for(future, timeout)\<close> returns the result of a future that is
  resolved before the timeout has passed, and raises \<^verbatim>\<open>TimeoutError\<close> otherwise,
  also when the updates come later.
\<close>

definition attempt ::
  "request \<Rightarrow> attempt_env \<Rightarrow> nat \<Rightarrow> client_state \<Rightarrow> (exn + toml option) step \<times> client_state" where
  "attempt rq e r s =
     (case add_event_handler (log Debug (MuteMsg (timeout rq)) s) of (h, s1) \<Rightarrow>
        (case send_result e of
           Inl x \<Rightarrow> inner_except rq r x [] h s1
         | Inr m \<Rightarrow>
             (case foldl (deliver rq) (None, sent rq m s1) (inbound e) of
                (None, s2) \<Rightarrow> inner_except rq r TimeoutError [Outbound m] h (waited (timeout rq) s2)
              | (Some results, s2) \<Rightarrow>
                  if reply_delay e < timeout rq then
                    (let s3 = waited (reply_delay e) s2;
                         s4 = (if results \<noteq> [] \<and> map_of results ''status'' = Some ''ok''
                               then cache_set (cache_key rq) results 3600 s3 else s3)
                     in (Done (Inr (Some results)), cleanup [Outbound m] h s4))
                  else inner_except rq r TimeoutError [Outbound m] h (waited (timeout rq) s2))))"

text \<open>The loop; when it runs out, the function ends and returns \<^verbatim>\<open>None\<close>.\<close>

fun attempts ::
  "request \<Rightarrow> (nat \<Rightarrow> attempt_env) \<Rightarrow> nat list \<Rightarrow> client_state \<Rightarrow> (exn + toml option) \<times> client_state" where
  "attempts rq env [] s = (Inr None, s)"
| "attempts rq env (r # rs) s =
     (case attempt rq (env r) r s of
        (Continue, s') \<Rightarrow> attempts rq env rs s'
      | (Done res, s') \<Rightarrow> (res, s'))"

text \<open>
  \<^verbatim>\<open>post\<close>: \<open>Inl\<close> is the exception raised, \<open>Inr\<close> the value returned. A cached
  value is returned when it is true.
\<close>

definition post ::
  "request \<Rightarrow> (nat \<Rightarrow> attempt_env) \<Rightarrow> client_state \<Rightarrow> (exn + toml option) \<times> client_state" where
  "post rq env s =
     (case cache_get s (cache_key rq) of
        Some cached_result \<Rightarrow>
          if cached_result \<noteq> [] then (Inr (Some cached_result), s)
          else attempts rq env [0..<retries rq] s
      | None \<Rightarrow> attempts rq env [0..<retries rq] s)"

subsection \<open>Notions used to state the properties of the relay request\<close>

text \<open>Read off a trace: the messages sent, the sleeps, the waits, the attempts begun.\<close>

fun sends :: "effect list \<Rightarrow> nat list" where
  "sends [] = []"
| "sends (SendMessage m c # tr) = m # sends tr"
| "sends (SendFile m c # tr) = m # sends tr"
| "sends (_ # tr) = sends tr"

fun sleeps :: "effect list \<Rightarrow> nat list" where
  "sleeps [] = []"
| "sleeps (Sleep n # tr) = n # sleeps tr"
| "sleeps (_ # tr) = sleeps tr"

fun waits :: "effect list \<Rightarrow> nat list" where
  "waits [] = []"
| "waits (WaitFor n # tr) = n # waits tr"
| "waits (_ # tr) = waits tr"

fun started :: "effect list \<Rightarrow> nat" where
  "started [] = 0"
| "started (AddEventHandler h # tr) = Suc (started tr)"
| "started (_ # tr) = started tr"

text \<open>
  The document with which an update resolves a pending future, if it does: the update
  is of the bot's chat, parses, carries the command, and the condition accepts it.
\<close>

definition accepts :: "request \<Rightarrow> nm_event \<Rightarrow> toml option" where
  "accepts rq ev =
     (if chat_id ev \<noteq> bot then None
      else
        (case loads rq (msg_text ev) of
           None \<Rightarrow> None
         | Some t \<Rightarrow>
             if map_of t ''command'' = Some (cmd rq)
                \<and> (case condition rq of None \<Rightarrow> True | Some c \<Rightarrow> c t = CondTrue)
             then Some t else None))"

fun reply :: "request \<Rightarrow> nm_event list \<Rightarrow> toml option" where
  "reply rq [] = None"
| "reply rq (ev # evs) = (case accepts rq ev of None \<Rightarrow> reply rq evs | Some t \<Rightarrow> Some t)"

text \<open>
  An attempt that is sent gets no reply in time: no update resolves the future, or the
  updates come when the timeout has passed.
\<close>

definition unanswered :: "request \<Rightarrow> attempt_env \<Rightarrow> bool" where
  "unanswered rq e = (reply rq (inbound e) = None \<or> timeout rq \<le> reply_delay e)"

text \<open>
  The seconds an iteration takes when it is rate-limited (the wait demanded), and when it
  is sent and times out (the timeout, and the pause of three seconds unless it is the
  last iteration).
\<close>

definition iteration_time :: "request \<Rightarrow> (nat \<Rightarrow> attempt_env) \<Rightarrow> nat \<Rightarrow> nat" where
  "iteration_time rq env r =
     (case send_result (env r) of
        Inl (FloodWaitError w) \<Rightarrow> w
      | _ \<Rightarrow> timeout rq + (if r + 1 < retries rq then 3 else 0))"

text \<open>
  Every iteration of the loop is rate-limited or is sent and gets no reply in time, and
  the last iteration is not rate-limited.
\<close>

definition runs_out :: "request \<Rightarrow> (nat \<Rightarrow> attempt_env) \<Rightarrow> bool" where
  "runs_out rq env =
     list_all (\<lambda>r. case send_result (env r) of
                      Inl (FloodWaitError w) \<Rightarrow> r + 1 < retries rq
                    | Inl _ \<Rightarrow> False
                    | Inr m \<Rightarrow> unanswered rq (env r))
       [0..<retries rq]"

text \<open>The iterations that are sent.\<close>

definition sent_iterations :: "(nat \<Rightarrow> attempt_env) \<Rightarrow> nat list \<Rightarrow> nat list" where
  "sent_iterations env rs =
     filter (\<lambda>r. case send_result (env r) of Inl x \<Rightarrow> False | Inr m \<Rightarrow> True) rs"


text \<open>What \<^verbatim>\<open>delete_messages\<close> adds to the trace.\<close>

fun deletions :: "msgref list \<Rightarrow> effect list" where
  "deletions [] = []"
| "deletions (m # ms) = Delete m # Log Debug (DeletedMsg m) # deletions ms"

subsection \<open>Example requests and environments\<close>

text \<open>
  An authorization request with the default timeout and retries, a parser that knows
  three texts, and a client with an empty cache at second 1000.
\<close>

definition example_loads :: "string \<Rightarrow> toml option" where
  "example_loads t =
     (if t = ''ok'' then Some [(''command'', ''/auth prime X''), (''status'', ''ok'')]
      else if t = ''denied'' then Some [(''command'', ''/auth prime X''), (''status'', ''denied'')]
      else None)"

definition example_request :: request where
  "example_request =
     \<lparr>cmd = ''/auth prime X'', photo = False, condition = None, timeout = 20, retries = 3,
      name = ''auth'', fail = False, instance_id = ''node'', loads = example_loads\<rparr>"

text \<open>The same request when the caller asks for errors to be raised.\<close>

definition example_request_fail :: request where
  "example_request_fail = example_request\<lparr>fail := True\<rparr>"

definition start_state :: client_state where
  "start_state =
     \<lparr>cache = [], clock = 1000, transcript = [], handlers = [], next_handler = 0, trace = []\<rparr>"

text \<open>
  Environments: every attempt is sent and never answered; the first attempt is rate
  limited for five seconds and the others are never answered; the peer has blocked
  the account; the peer answers after a message that does not parse.
\<close>

definition env_timeouts :: "nat \<Rightarrow> attempt_env" where
  "env_timeouts r = \<lparr>send_result = Inr (100 + r), inbound = [], reply_delay = 0\<rparr>"

definition env_flood_first :: "nat \<Rightarrow> attempt_env" where
  "env_flood_first r =
     (if r = 0 then \<lparr>send_result = Inl (FloodWaitError 5), inbound = [], reply_delay = 0\<rparr>
      else env_timeouts r)"

definition env_blocked :: "nat \<Rightarrow> attempt_env" where
  "env_blocked r = \<lparr>send_result = Inl UserBlockedError, inbound = [], reply_delay = 0\<rparr>"



section \<open>The pool of clients (\<^verbatim>\<open>tele.py\<close>, class \<^verbatim>\<open>ClientsSession\<close>)\<close>

text \<open>
  \<^verbatim>\<open>ClientsSession.pool\<close> is a dictionary from the phone of an account to either the
  task that logs the account in, or the pair of the client and its reference count.
  A client object is named by a number. The dictionary is an association list in
  insertion order: \<open>AList.update\<close> replaces the value of a key in place or appends a new
  key.
\<close>

type_synonym phone = string

datatype entry = Task nat | Entry nat int

type_synonym pool = "(phone \<times> entry) list"

text \<open>
  \<^verbatim>\<open>client, ref = entry\<close> on a pair gives its parts. On a task it iterates the
  task: \<^verbatim>\<open>RuntimeError\<close> for a task that is pending, \<^verbatim>\<open>ValueError\<close> for one that
  is done. \<open>finished\<close> tells which tasks are done.
\<close>

definition unpack :: "(nat \<Rightarrow> bool) \<Rightarrow> entry \<Rightarrow> py_error + nat \<times> int" where
  "unpack finished e =
     (case e of
        Task t \<Rightarrow> Inl (if finished t then ValueError else RuntimeError)
      | Entry client ref \<Rightarrow> Inr (client, ref))"

subsection \<open>Release: \<^verbatim>\<open>__aexit__\<close>\<close>

text \<open>
  For every phone of \<^verbatim>\<open>self.phones\<close>: an entry that is there is unpacked (an error
  leaves the pool as changed so far) and stored again with \<^verbatim>\<open>ref - 1\<close>. Nothing else
  is done.
\<close>

fun aexit :: "(nat \<Rightarrow> bool) \<Rightarrow> phone list \<Rightarrow> pool \<Rightarrow> py_error option \<times> pool" where
  "aexit finished [] pl = (None, pl)"
| "aexit finished (p # ps) pl =
     (case map_of pl p of
        None \<Rightarrow> aexit finished ps pl
      | Some e \<Rightarrow>
          (case unpack finished e of
             Inl err \<Rightarrow> (Some err, pl)
           | Inr (client, ref) \<Rightarrow>
               aexit finished ps (AList.update p (Entry client (ref - 1)) pl)))"

subsection \<open>The watchdog and \<^verbatim>\<open>clean\<close>\<close>

text \<open>
  \<^verbatim>\<open>clean(phone)\<close>, under the lock: with no entry it returns; the unpacking of a task
  raises, and the error is no \<^verbatim>\<open>TypeError\<close>; with a count other than zero
  (\<^verbatim>\<open>if not ref\<close> fails) it returns; with count zero it evaluates
  \<^verbatim>\<open>client.stop()\<close>. The class \<^verbatim>\<open>Client\<close> is a \<^verbatim>\<open>TelegramClient\<close> of Telethon
  and defines no \<^verbatim>\<open>stop\<close>, nor does \<^verbatim>\<open>TelegramClient\<close>: \<^verbatim>\<open>AttributeError\<close>, and
  \<^verbatim>\<open>cls.pool.pop(phone, None)\<close> is not reached. The result is the error raised, if
  any; the pool is the same afterwards on every path.
\<close>

definition clean :: "(nat \<Rightarrow> bool) \<Rightarrow> pool \<Rightarrow> phone \<Rightarrow> py_error option" where
  "clean finished pl p =
     (case map_of pl p of
        None \<Rightarrow> None
      | Some e \<Rightarrow>
          (case unpack finished e of
             Inl err \<Rightarrow> Some err
           | Inr (client, ref) \<Rightarrow> if ref = 0 then Some AttributeError else None))"

text \<open>
  The body of the watchdog's loop for one phone \<open>p\<close> of \<^verbatim>\<open>list(cls.pool)\<close>, up to
  the call of \<^verbatim>\<open>clean\<close>: the new counters, and whether \<^verbatim>\<open>clean(p)\<close> is called.
  \<^verbatim>\<open>cls.pool[p][1]\<close> raises \<^verbatim>\<open>KeyError\<close> for a phone that is gone and
  \<^verbatim>\<open>TypeError\<close> for a task; both are passed over. The test
  \<^verbatim>\<open>counter[p] >= timeout / 10\<close> compares with the exact quotient.
\<close>

type_synonym counters = "(phone \<times> int) list"

definition watchdog_check :: "int \<Rightarrow> pool \<Rightarrow> counters \<Rightarrow> phone \<Rightarrow> counters \<times> bool" where
  "watchdog_check timeout_s pl counter p =
     (case map_of pl p of
        None \<Rightarrow> (counter, False)
      | Some (Task t) \<Rightarrow> (counter, False)
      | Some (Entry client ref) \<Rightarrow>
          if ref \<le> 0 then
            (case map_of counter p of
               Some k \<Rightarrow>
                 if timeout_s \<le> (k + 1) * 10 then (AList.update p 0 counter, True)
                 else (AList.update p (k + 1) counter, False)
             | None \<Rightarrow> (AList.update p 1 counter, False))
          else (AList.delete p counter, False))"

text \<open>
  One scan, the \<^verbatim>\<open>for\<close> loop after a sleep. An error of \<^verbatim>\<open>clean\<close> is neither a
  \<^verbatim>\<open>TypeError\<close> nor a \<^verbatim>\<open>KeyError\<close>, and no \<^verbatim>\<open>CancelledError\<close>: it leaves the
  loops and ends the watchdog. No task holds the lock while it is suspended, so that the
  scan is not suspended and the pool is the same throughout.
\<close>

fun scan_phones ::
  "(nat \<Rightarrow> bool) \<Rightarrow> int \<Rightarrow> pool \<Rightarrow> phone list \<Rightarrow> counters \<Rightarrow> py_error option \<times> counters" where
  "scan_phones finished timeout_s pl [] counter = (None, counter)"
| "scan_phones finished timeout_s pl (p # ps) counter =
     (case watchdog_check timeout_s pl counter p of
        (counter', False) \<Rightarrow> scan_phones finished timeout_s pl ps counter'
      | (counter', True) \<Rightarrow>
          (case clean finished pl p of
             None \<Rightarrow> scan_phones finished timeout_s pl ps counter'
           | Some err \<Rightarrow> (Some err, counter')))"

definition watchdog_scan ::
  "(nat \<Rightarrow> bool) \<Rightarrow> int \<Rightarrow> pool \<Rightarrow> counters \<Rightarrow> py_error option \<times> counters" where
  "watchdog_scan finished timeout_s pl counter =
     scan_phones finished timeout_s pl (map fst pl) counter"

text \<open>
  \<^verbatim>\<open>shutdown\<close>, which the watchdog runs when it is cancelled, goes twice through
  \<^verbatim>\<open>cls.pool.values()\<close>. First the dispatcher of the client of every pair is told to
  stop (a login task is cancelled). Then, once the other tasks have ended,
  \<^verbatim>\<open>client.storage.save()\<close> is evaluated for the first pair: a \<^verbatim>\<open>TelegramClient\<close>
  has no \<^verbatim>\<open>storage\<close>, \<^verbatim>\<open>AttributeError\<close>. \<open>pool_clients\<close> are the clients of the
  pairs.
\<close>

definition pool_clients :: "pool \<Rightarrow> nat list" where
  "pool_clients pl =
     concat (map (\<lambda>(p, e). case e of Task t \<Rightarrow> [] | Entry client ref \<Rightarrow> [client]) pl)"

definition shutdown_close :: "pool \<Rightarrow> py_error option" where
  "shutdown_close pl = (if pool_clients pl = [] then None else Some AttributeError)"

subsection \<open>The watchdog among the other tasks\<close>

text \<open>
  The tasks are coroutines on one event loop: a task runs alone from one suspension
  to the next. The watchdog is suspended in \<^verbatim>\<open>asyncio.sleep(10)\<close> only; when it is
  cancelled there it runs \<^verbatim>\<open>shutdown\<close>, which waits for the other tasks to end. An
  exception ends the watchdog.
\<close>

datatype wpc = Sleeping | ShuttingDown | Finished | Dead py_error

text \<open>
  The pool, where the watchdog stands, its counters, and the clients whose dispatcher
  \<^verbatim>\<open>shutdown\<close> has told to stop.
\<close>

record wstate =
  pool :: pool
  wd :: wpc
  counter :: counters
  halted :: "nat list"

text \<open>
  The steps: a scan of the watchdog, and the writes to the pool made by the other tasks,
  each under the lock: \<^verbatim>\<open>__aenter__\<close> stores a login task for a phone that is not in
  the pool and adds one to the count of a pair; \<^verbatim>\<open>loginer\<close> stores the pair of the
  new client and 1 under the phone of its task; \<^verbatim>\<open>__aexit__\<close> takes one from the
  count of a pair. The watchdog can be cancelled in its sleep; \<open>Close\<close> is the second
  part of \<^verbatim>\<open>shutdown\<close>.
\<close>

datatype waction =
    Scan
  | NewTask phone nat
  | LoginDone phone nat
  | AddRef phone
  | DropRef phone
  | Cancel
  | Close

fun wstep :: "(nat \<Rightarrow> bool) \<Rightarrow> int \<Rightarrow> waction \<Rightarrow> wstate \<Rightarrow> wstate option" where
  "wstep finished timeout_s Scan s =
     (case wd s of
        Sleeping \<Rightarrow>
          (case watchdog_scan finished timeout_s (pool s) (counter s) of
             (None, counter') \<Rightarrow> Some (s\<lparr>counter := counter'\<rparr>)
           | (Some err, counter') \<Rightarrow> Some (s\<lparr>counter := counter', wd := Dead err\<rparr>))
      | _ \<Rightarrow> None)"
| "wstep finished timeout_s (NewTask p t) s =
     (case map_of (pool s) p of
        None \<Rightarrow> Some (s\<lparr>pool := AList.update p (Task t) (pool s)\<rparr>)
      | Some e \<Rightarrow> None)"
| "wstep finished timeout_s (LoginDone p client) s =
     (case map_of (pool s) p of
        Some (Task t) \<Rightarrow> Some (s\<lparr>pool := AList.update p (Entry client 1) (pool s)\<rparr>)
      | _ \<Rightarrow> None)"
| "wstep finished timeout_s (AddRef p) s =
     (case map_of (pool s) p of
        Some (Entry client ref) \<Rightarrow>
          Some (s\<lparr>pool := AList.update p (Entry client (ref + 1)) (pool s)\<rparr>)
      | _ \<Rightarrow> None)"
| "wstep finished timeout_s (DropRef p) s =
     (case map_of (pool s) p of
        Some (Entry client ref) \<Rightarrow>
          Some (s\<lparr>pool := AList.update p (Entry client (ref - 1)) (pool s)\<rparr>)
      | _ \<Rightarrow> None)"
| "wstep finished timeout_s Cancel s =
     (case wd s of
        Sleeping \<Rightarrow>
          Some (s\<lparr>wd := ShuttingDown, halted := halted s @ pool_clients (pool s)\<rparr>)
      | _ \<Rightarrow> None)"
| "wstep finished timeout_s Close s =
     (case wd s of
        ShuttingDown \<Rightarrow>
          (case shutdown_close (pool s) of
             None \<Rightarrow> Some (s\<lparr>wd := Finished\<rparr>)
           | Some err \<Rightarrow> Some (s\<lparr>wd := Dead err\<rparr>))
      | _ \<Rightarrow> None)"

text \<open>A run: the steps of a schedule one after the other, as long as each is possible.\<close>

fun wrun :: "(nat \<Rightarrow> bool) \<Rightarrow> int \<Rightarrow> waction list \<Rightarrow> wstate \<Rightarrow> wstate option" where
  "wrun finished timeout_s [] s = Some s"
| "wrun finished timeout_s (a # as) s =
     (case wstep finished timeout_s a s of
        None \<Rightarrow> None
      | Some s' \<Rightarrow> wrun finished timeout_s as s')"

text \<open>The watchdog is started with the first \<^verbatim>\<open>ClientsSession\<close>, on an empty pool.\<close>

definition winit :: wstate where
  "winit = \<lparr>pool = [], wd = Sleeping, counter = [], halted = []\<rparr>"

text \<open>
  A schedule: account \<open>A\<close> is logged in as client 7 and released, and the watchdog, with
  its timeout of 120 seconds, scans twelve times.
\<close>

definition idle_schedule :: "waction list" where
  "idle_schedule = [NewTask ''A'' 0, LoginDone ''A'' 7, DropRef ''A''] @ replicate 12 Scan"

subsection \<open>Acquisition: \<^verbatim>\<open>__aenter__\<close>, \<^verbatim>\<open>loginer\<close> and the start of \<^verbatim>\<open>login\<close>\<close>

text \<open>
  An account is a dictionary of the configuration, shared by every \<^verbatim>\<open>ClientsSession\<close>
  made from it; it is named by a number, and \<open>store\<close> gives the value of its key
  \<^verbatim>\<open>"phone"\<close>. The first statement of \<^verbatim>\<open>login\<close> writes that key:
  \<^verbatim>\<open>account["phone"] = "".join(account["phone"].split())\<close>, the phone without its
  whitespace.
\<close>

type_synonym account = nat

definition whitespace :: "char \<Rightarrow> bool" where
  "whitespace c = ((of_char c :: nat) \<in> {9, 10, 11, 12, 13, 28, 29, 30, 31, 32, 133, 160})"

definition normalise :: "string \<Rightarrow> string" where
  "normalise s = filter (\<lambda>c. \<not> whitespace c) s"

text \<open>
  A login task (\<^verbatim>\<open>asyncio.create_task(self.loginer(a))\<close>) is named by the number of
  tasks made before it. It knows the \<^verbatim>\<open>ClientsSession\<close> that made it and its account.
  It is \<open>Created\<close> until it runs for the first time, \<open>Running\<close> while \<^verbatim>\<open>login\<close> waits
  for the network, and ends \<open>Succeeded\<close> (\<^verbatim>\<open>login\<close> returned a \<^verbatim>\<open>Client\<close>),
  \<open>Failed\<close> (it returned \<^verbatim>\<open>None\<close>) or \<open>Crashed\<close> (it raised: its last lines, which
  no \<^verbatim>\<open>except\<close> covers, evaluate \<^verbatim>\<open>client.export_session_string()\<close> when the file
  of the session string does not exist, and a \<^verbatim>\<open>TelegramClient\<close> has no such
  attribute). The client made by task \<open>t\<close> is named \<open>t\<close>.
\<close>

datatype lstatus = Created | Running | Succeeded | Failed | Crashed py_error

record login_task =
  owner :: nat
  account :: account
  lstatus :: lstatus

text \<open>
  A \<^verbatim>\<open>ClientsSession\<close> inside \<^verbatim>\<open>__aenter__\<close>: the accounts still to go through, where
  it stands (in the loop, suspended in \<^verbatim>\<open>await self.pool[phone]\<close> with its local
  \<^verbatim>\<open>phone\<close>, returned, or left by an exception), \<^verbatim>\<open>self.phones\<close>, and everything
  put into \<^verbatim>\<open>self.done\<close> so far.
\<close>

datatype apc = Entering | Awaiting nat phone | Returned | Raised py_error

record csession =
  todo :: "account list"
  apc :: apc
  phones :: "phone list"
  done_q :: "nat option list"

record astate =
  store :: "account \<Rightarrow> string"
  apool :: pool
  tasks :: "login_task list"
  sessions :: "csession list"

text \<open>
  The steps. Between two suspensions a task runs alone, and no task is suspended while
  it holds the lock, so the lock is free at the start of every step.

  \<open>Enter i\<close> is one turn of the loop of \<^verbatim>\<open>__aenter__\<close> of session \<open>i\<close>, up to its
  next suspension: \<^verbatim>\<open>phone = a["phone"]\<close> is read from the shared account. A phone
  that is not in the pool gets a new login task as its entry; a pair is stored again
  with \<^verbatim>\<open>ref + 1\<close>, the phone is appended to \<^verbatim>\<open>self.phones\<close> and the client put into
  \<^verbatim>\<open>self.done\<close>; at a task the session releases the lock and awaits the task.
  \<open>Woken i\<close> is the rest of that turn once the task has ended: the exception of a
  task that raised is raised again by the \<^verbatim>\<open>await\<close>; otherwise
  \<^verbatim>\<open>self.pool[phone]\<close> is read again with the same local \<^verbatim>\<open>phone\<close>; if it is
  still a task the turn ends (\<^verbatim>\<open>continue\<close>), a missing key raises \<^verbatim>\<open>KeyError\<close>.
  \<open>LoginStart t\<close> is the first run of the task, to the first suspension of \<^verbatim>\<open>login\<close>.
  \<open>LoginOk t\<close> is the end of \<^verbatim>\<open>loginer\<close> with a client: under the lock,
  \<^verbatim>\<open>phone = account["phone"]\<close> is read, \<^verbatim>\<open>self.pool[phone] = (client, 1)\<close>, and the
  phone and the client are appended to the owner's \<^verbatim>\<open>phones\<close> and \<^verbatim>\<open>done\<close>.
  \<open>LoginFail t\<close> is the end of \<^verbatim>\<open>loginer\<close> without a client: \<^verbatim>\<open>None\<close> is put into
  the owner's \<^verbatim>\<open>done\<close>. \<open>LoginCrash t err\<close> is the end of the task by an exception of
  \<^verbatim>\<open>login\<close>: nothing is put.
\<close>

datatype aaction =
    Enter nat | Woken nat | LoginStart nat | LoginOk nat | LoginFail nat | LoginCrash nat py_error

definition take_ref :: "phone \<Rightarrow> nat \<Rightarrow> int \<Rightarrow> account list \<Rightarrow> nat \<Rightarrow> astate \<Rightarrow> astate" where
  "take_ref p client ref rest i s =
     s\<lparr>apool := AList.update p (Entry client (ref + 1)) (apool s),
       sessions := (sessions s)[i := (sessions s ! i)
          \<lparr>todo := rest, apc := Entering, phones := phones (sessions s ! i) @ [p],
           done_q := done_q (sessions s ! i) @ [Some client]\<rparr>]\<rparr>"

definition woken_read :: "phone \<Rightarrow> account list \<Rightarrow> nat \<Rightarrow> astate \<Rightarrow> astate option" where
  "woken_read p rest i s =
     (case map_of (apool s) p of
        None \<Rightarrow>
          Some (s\<lparr>sessions := (sessions s)[i := (sessions s ! i)\<lparr>apc := Raised KeyError\<rparr>]\<rparr>)
      | Some (Task t') \<Rightarrow>
          Some (s\<lparr>sessions :=
                    (sessions s)[i := (sessions s ! i)\<lparr>todo := rest, apc := Entering\<rparr>]\<rparr>)
      | Some (Entry client ref) \<Rightarrow> Some (take_ref p client ref rest i s))"

fun astep :: "aaction \<Rightarrow> astate \<Rightarrow> astate option" where
  "astep (Enter i) s =
     (if i < length (sessions s) \<and> apc (sessions s ! i) = Entering then
        (case todo (sessions s ! i) of
           [] \<Rightarrow> Some (s\<lparr>sessions := (sessions s)[i := (sessions s ! i)\<lparr>apc := Returned\<rparr>]\<rparr>)
         | a # rest \<Rightarrow>
             (case map_of (apool s) (store s a) of
                None \<Rightarrow>
                  Some (s\<lparr>apool := AList.update (store s a) (Task (length (tasks s))) (apool s),
                          tasks := tasks s @ [\<lparr>owner = i, account = a, lstatus = Created\<rparr>],
                          sessions := (sessions s)[i := (sessions s ! i)\<lparr>todo := rest\<rparr>]\<rparr>)
              | Some (Task t) \<Rightarrow>
                  Some (s\<lparr>sessions :=
                            (sessions s)[i := (sessions s ! i)\<lparr>apc := Awaiting t (store s a)\<rparr>]\<rparr>)
              | Some (Entry client ref) \<Rightarrow> Some (take_ref (store s a) client ref rest i s)))
      else None)"
| "astep (Woken i) s =
     (if i < length (sessions s) then
        (case (apc (sessions s ! i), todo (sessions s ! i)) of
           (Awaiting t p, a # rest) \<Rightarrow>
             if t < length (tasks s) then
               (case lstatus (tasks s ! t) of
                  Created \<Rightarrow> None
                | Running \<Rightarrow> None
                | Crashed err \<Rightarrow>
                    Some (s\<lparr>sessions := (sessions s)[i := (sessions s ! i)\<lparr>apc := Raised err\<rparr>]\<rparr>)
                | _ \<Rightarrow> woken_read p rest i s)
             else None
         | _ \<Rightarrow> None)
      else None)"
| "astep (LoginCrash t err) s =
     (if t < length (tasks s) \<and> lstatus (tasks s ! t) = Running then
        Some (s\<lparr>tasks := (tasks s)[t := (tasks s ! t)\<lparr>lstatus := Crashed err\<rparr>]\<rparr>)
      else None)"
| "astep (LoginStart t) s =
     (if t < length (tasks s) \<and> lstatus (tasks s ! t) = Created then
        Some (s\<lparr>store := (store s)(account (tasks s ! t) := normalise (store s (account (tasks s ! t)))),
                tasks := (tasks s)[t := (tasks s ! t)\<lparr>lstatus := Running\<rparr>]\<rparr>)
      else None)"
| "astep (LoginOk t) s =
     (if t < length (tasks s) \<and> lstatus (tasks s ! t) = Running then
        Some (s\<lparr>apool := AList.update (store s (account (tasks s ! t))) (Entry t 1) (apool s),
                tasks := (tasks s)[t := (tasks s ! t)\<lparr>lstatus := Succeeded\<rparr>],
                sessions := (sessions s)[owner (tasks s ! t) := (sessions s ! owner (tasks s ! t))
                   \<lparr>phones := phones (sessions s ! owner (tasks s ! t))
                                @ [store s (account (tasks s ! t))],
                    done_q := done_q (sessions s ! owner (tasks s ! t)) @ [Some t]\<rparr>]\<rparr>)
      else None)"
| "astep (LoginFail t) s =
     (if t < length (tasks s) \<and> lstatus (tasks s ! t) = Running then
        Some (s\<lparr>tasks := (tasks s)[t := (tasks s ! t)\<lparr>lstatus := Failed\<rparr>],
                sessions := (sessions s)[owner (tasks s ! t) := (sessions s ! owner (tasks s ! t))
                   \<lparr>done_q := done_q (sessions s ! owner (tasks s ! t)) @ [None]\<rparr>]\<rparr>)
      else None)"

fun arun :: "aaction list \<Rightarrow> astate \<Rightarrow> astate option" where
  "arun [] s = Some s"
| "arun (a # as) s = (case astep a s of None \<Rightarrow> None | Some s' \<Rightarrow> arun as s')"

text \<open>
  The start: the accounts with their phones, an empty pool, and one
  \<^verbatim>\<open>ClientsSession\<close> for each list of accounts, at the head of its loop.
\<close>

definition ainit :: "(account \<Rightarrow> string) \<Rightarrow> account list list \<Rightarrow> astate" where
  "ainit st accs =
     \<lparr>store = st, apool = [], tasks = [],
      sessions = map (\<lambda>as. \<lparr>todo = as, apc = Entering, phones = [], done_q = []\<rparr>) accs\<rparr>"

text \<open>The phone under which the account of a login task stands now.\<close>

definition task_phone :: "astate \<Rightarrow> nat \<Rightarrow> phone" where
  "task_phone s t = store s (account (tasks s ! t))"

text \<open>The clients a session has been given, and how often the sessions hold a phone.\<close>

definition given :: "csession \<Rightarrow> nat list" where
  "given c = concat (map (\<lambda>x. case x of None \<Rightarrow> [] | Some client \<Rightarrow> [client]) (done_q c))"

definition holds :: "astate \<Rightarrow> phone \<Rightarrow> nat" where
  "holds s p = sum_list (map (\<lambda>c. count_list (phones c) p) (sessions s))"

text \<open>
  Two acquisitions of one account whose phone is written with blanks. In the first
  schedule the second \<^verbatim>\<open>ClientsSession\<close> reads the phone before the login task has run,
  in the second schedule after.
\<close>

definition blank_store :: "account \<Rightarrow> string" where
  "blank_store a = ''+86 138''"

definition late_reader :: "aaction list" where
  "late_reader = [Enter 0, LoginStart 0, Enter 1, LoginStart 1, LoginOk 0, LoginOk 1, Enter 0, Enter 1]"

definition early_reader :: "aaction list" where
  "early_reader = [Enter 0, Enter 1, LoginStart 0, LoginOk 0, Woken 1, Enter 0, Enter 1]"

text \<open>The same with a phone written without blanks.\<close>

definition plain_store :: "account \<Rightarrow> string" where
  "plain_store a = ''+86138''"

text \<open>Every phone is written without whitespace, so that \<^verbatim>\<open>login\<close> leaves it as it is.\<close>

definition plain :: "(account \<Rightarrow> string) \<Rightarrow> bool" where
  "plain st = (\<forall>a. normalise (st a) = st a)"

text \<open>
  What then holds in every state of the acquisition: the keys of the pool are distinct;
  a login task that has not succeeded is the entry of its phone, and one that has is the
  client of the pair of its phone; an entry names a task of its phone, and the count of a
  pair is the number of times the sessions hold the phone, which is zero for a phone
  without a pair; the clients given to a session are the tasks of the phones it holds;
  a session awaits a task of the phone it has read.
\<close>

definition ainv :: "astate \<Rightarrow> bool" where
  "ainv s =
     (plain (store s)
      \<and> distinct (map fst (apool s))
      \<and> (\<forall>t < length (tasks s).
            owner (tasks s ! t) < length (sessions s)
            \<and> (if lstatus (tasks s ! t) = Succeeded
               then \<exists>r. map_of (apool s) (task_phone s t) = Some (Entry t r)
               else map_of (apool s) (task_phone s t) = Some (Task t)))
      \<and> (\<forall>p. case map_of (apool s) p of
                None \<Rightarrow> holds s p = 0
              | Some (Task t) \<Rightarrow> t < length (tasks s) \<and> task_phone s t = p \<and> holds s p = 0
              | Some (Entry c r) \<Rightarrow> c < length (tasks s) \<and> task_phone s c = p \<and> r = int (holds s p))
      \<and> (\<forall>i < length (sessions s).
            map (task_phone s) (given (sessions s ! i)) = phones (sessions s ! i)
            \<and> (\<forall>c \<in> set (given (sessions s ! i)). c < length (tasks s)))
      \<and> (\<forall>i < length (sessions s). \<forall>t p. apc (sessions s ! i) = Awaiting t p \<longrightarrow>
            t < length (tasks s) \<and> task_phone s t = p \<and> todo (sessions s ! i) \<noteq> []))"

section \<open>Properties of the dispatcher\<close>

lemma visits_append: "visits (xs @ ys) = visits xs @ visits ys"
  by (induction xs rule: visits.induct) auto

lemma invoked_append: "invoked (xs @ ys) = invoked xs @ invoked ys"
  by (induction xs rule: invoked.induct) auto

lemma upto_first_append:
  "upto_first P (xs @ ys) = (if \<exists>x \<in> set xs. P x then upto_first P xs else xs @ upto_first P ys)"
  by (induction xs) auto

lemma find_append_if:
  "find P (xs @ ys) = (if \<exists>x \<in> set xs. P x then find P xs else find P ys)"
  by (induction xs) auto

lemma upto_first_map: "upto_first P (map f xs) = map f (upto_first (P \<circ> f) xs)"
  by (induction xs) auto

lemma try_handler_visits: "try_handler H p g h live = (e, evs, live') \<Longrightarrow> visits evs = [(g, h)]"
  by (auto simp: try_handler_def run_callback_def split: hkind.splits prod.splits filter_result.splits cb_result.splits)

lemma try_handler_None:
  "\<not> filter_cancelled H p h \<Longrightarrow> try_handler H p g h live = (e, evs, live') \<Longrightarrow> (e = None) = (\<not> matches H p h)"
  by (auto simp: try_handler_def run_callback_def matches_def filter_cancelled_def split: hkind.splits prod.splits filter_result.splits cb_result.splits)

lemma try_handler_not_NoMatch:
  "try_handler H p g h live = (Some e, evs, live') \<Longrightarrow> e \<noteq> NoMatch"
  by (auto simp: try_handler_def run_callback_def split: hkind.splits prod.splits filter_result.splits cb_result.splits)

lemma try_handler_invoked:
  "try_handler H p g h live = (e, evs, live') \<Longrightarrow> invoked evs = (if matches H p h then [h] else [])"
  by (auto simp: try_handler_def run_callback_def matches_def split: hkind.splits prod.splits filter_result.splits cb_result.splits)

lemma run_group_trace:
  "\<forall>h \<in> set hs. \<not> filter_cancelled H p h \<Longrightarrow> run_group H p g hs live = (e, evs, live') \<Longrightarrow>
   visits evs = map (Pair g) (upto_first (matches H p) hs)
 \<and> invoked evs = (case find (matches H p) hs of None \<Rightarrow> [] | Some h \<Rightarrow> [h])
 \<and> (e = NoMatch) = (\<forall>h \<in> set hs. \<not> matches H p h)"
proof (induction hs arbitrary: live e evs live')
  case Nil
  then show ?case by simp
next
  case (Cons h hs)
  obtain e1 evs1 live1 where t: "try_handler H p g h live = (e1, evs1, live1)"
    by (cases "try_handler H p g h live") auto
  have nc: "\<not> filter_cancelled H p h" using Cons.prems(1) by simp
  note v = try_handler_visits[OF t] and i = try_handler_invoked[OF t] and n = try_handler_None[OF nc t]
  show ?case
  proof (cases e1)
    case None
    obtain e2 evs2 live2 where r: "run_group H p g hs live1 = (e2, evs2, live2)"
      by (cases "run_group H p g hs live1") auto
    have ih: "visits evs2 = map (Pair g) (upto_first (matches H p) hs)
       \<and> invoked evs2 = (case find (matches H p) hs of None \<Rightarrow> [] | Some h \<Rightarrow> [h])
       \<and> (e2 = NoMatch) = (\<forall>h \<in> set hs. \<not> matches H p h)"
      using Cons.IH[OF _ r] Cons.prems(1) by simp
    from Cons.prems(2) t None r have "e = e2" "evs = evs1 @ evs2" by auto
    with ih v i n None show ?thesis by (simp add: visits_append invoked_append)
  next
    case (Some e')
    from Cons.prems(2) t Some have "e = e'" "evs = evs1" by auto
    moreover have "e' \<noteq> NoMatch" using try_handler_not_NoMatch t Some by blast
    ultimately show ?thesis using v i n Some by auto
  qed
qed

lemma run_groups_trace:
  "\<forall>(g, h) \<in> set (flat gs). \<not> filter_cancelled H p h \<Longrightarrow> run_groups H p gs live = (e, evs, live') \<Longrightarrow>
   visits evs = upto_first (\<lambda>(g, h). matches H p h) (flat gs)
 \<and> invoked evs = (case find (\<lambda>(g, h). matches H p h) (flat gs) of None \<Rightarrow> [] | Some (g, h) \<Rightarrow> [h])
 \<and> (e = NoMatch) = (\<forall>(g, h) \<in> set (flat gs). \<not> matches H p h)"
proof (induction gs arbitrary: live e evs live')
  case Nil
  then show ?case by (simp add: flat_def)
next
  case (Cons a gs)
  obtain g hs where a: "a = (g, hs)" by (cases a) auto
  have fl: "flat (a # gs) = map (Pair g) hs @ flat gs" by (simp add: flat_def a)
  obtain e1 evs1 live1 where t: "run_group H p g hs live = (e1, evs1, live1)"
    by (cases "run_group H p g hs live") auto
  have nc: "\<forall>h \<in> set hs. \<not> filter_cancelled H p h" using Cons.prems(1) fl by auto
  note g1 = run_group_trace[OF nc t]
  have fm: "find (\<lambda>(g, h). matches H p h) (map (Pair g) hs) = map_option (Pair g) (find (matches H p) hs)"
    by (induction hs) auto
  show ?case
  proof (cases "e1 = NoMatch")
    case True
    obtain e2 evs2 live2 where r: "run_groups H p gs live1 = (e2, evs2, live2)"
      by (cases "run_groups H p gs live1") auto
    have nc2: "\<forall>(g, h) \<in> set (flat gs). \<not> filter_cancelled H p h" using Cons.prems(1) fl by auto
    note ih = Cons.IH[OF nc2 r]
    from Cons.prems(2) t True r a have "e = e2" "evs = evs1 @ evs2" by auto
    moreover have nm: "\<forall>h \<in> set hs. \<not> matches H p h" using g1 True by simp
    moreover have "find (matches H p) hs = None" using nm by (simp add: find_None_iff)
    moreover have "upto_first (matches H p) hs = hs" using nm by (induction hs) auto
    ultimately show ?thesis using ih g1 fl
      by (auto simp: visits_append invoked_append upto_first_append find_append_if upto_first_map)
  next
    case False
    from Cons.prems(2) t False a have ee: "e = e1" "evs = evs1" by (auto split: pass_end.splits)
    from g1 False obtain h where h: "h \<in> set hs" "matches H p h" by auto
    then obtain h' where "find (matches H p) hs = Some h'"
      by (cases "find (matches H p) hs") (auto simp: find_None_iff)
    then show ?thesis using ee g1 fl h False fm
      by (auto simp: upto_first_append find_append_if upto_first_map comp_def)
  qed
qed

lemma keys_ok_iff: "keys_ok gs = (sorted (map fst gs) \<and> distinct (map fst gs))"
  by (auto simp: keys_ok_def strict_sorted_iff)

lemma fst_upd_comp: "fst \<circ> (\<lambda>(i, hs). if i = g then (i, f hs) else (i, hs)) = fst"
  by (auto simp: fun_eq_iff)

lemma keys_map_upd: "map fst (map (\<lambda>(i, hs). if i = g then (i, f hs) else (i, hs)) gs) = map fst gs"
  by (simp add: fst_upd_comp)

lemma map_of_map_upd:
  "map_of (map (\<lambda>(i, hs). if i = g then (i, f hs) else (i, hs)) gs) k =
     (if k = g then map_option f (map_of gs k) else map_of gs k)"
  by (induction gs) auto

lemma distinct_map_insort_key:
  "distinct (map f (insort_key f x xs)) = (f x \<notin> f ` set xs \<and> distinct (map f xs))"
  by (induction xs) (auto simp: set_insort_key)

lemma distinct_map_sort_key: "distinct (map f (sort_key f xs)) = distinct (map f xs)"
  by (induction xs) (auto simp: distinct_map_insort_key)

lemma map_of_sort_key:
  assumes "distinct (map fst xs)"
  shows "map_of (sort_key fst xs) = map_of xs"
proof -
  have "distinct (map fst (sort_key fst xs))" using assms by (simp add: distinct_map_sort_key)
  then show ?thesis using assms map_of_inject_set[of "sort_key fst xs" xs] by simp
qed

lemma add_handler_keys_ok: "keys_ok gs \<Longrightarrow> keys_ok (add_handler h g gs)"
  by (auto simp: keys_ok_iff add_handler_def Let_def fst_upd_comp sorted_sort_key distinct_map_sort_key)

lemma add_handler_group:
  assumes "keys_ok gs"
  shows "group_handlers (add_handler h g gs) k =
           (if k = g then group_handlers gs g @ [h] else group_handlers gs k)"
proof (cases "g \<in> set (map fst gs)")
  case True
  then obtain hs where "map_of gs g = Some hs"
    by (metis (no_types) map_of_eq_None_iff not_Some_eq set_map)
  then show ?thesis using True
    by (simp add: add_handler_def group_handlers_def map_of_map_upd)
next
  case False
  then have d: "distinct (map fst (gs @ [(g, [])]))" using assms by (auto simp: keys_ok_iff)
  have n: "map_of gs g = None" using False by (simp add: map_of_eq_None_iff)
  show ?thesis using False n
    by (simp add: add_handler_def group_handlers_def map_of_map_upd map_of_sort_key[OF d] map_add_def
        split: option.splits)
qed

lemma remove_handler_keys_ok: "keys_ok gs \<Longrightarrow> remove_handler h g gs = Inr gs' \<Longrightarrow> keys_ok gs'"
  by (auto simp: remove_handler_def keys_ok_iff fst_upd_comp split: if_splits)

lemma run_op_keys_ok: "keys_ok gs \<Longrightarrow> keys_ok (run_op op gs)"
  by (cases op) (auto simp: add_handler_keys_ok remove_handler_keys_ok split: sum.splits)

lemma run_op_group:
  assumes "keys_ok gs"
  shows "group_handlers (run_op op gs) k = registered_step k (group_handlers gs k) op"
proof (cases op)
  case (AddHandler h g)
  then show ?thesis using add_handler_group[OF assms] by simp
next
  case (RemoveHandler h g)
  show ?thesis
  proof (cases "g \<in> set (map fst gs) \<and> h \<in> set (group_handlers gs g)")
    case True
    then obtain hs where "map_of gs g = Some hs"
      by (metis (no_types) map_of_eq_None_iff not_Some_eq set_map)
    then show ?thesis using True RemoveHandler
      by (auto simp: remove_handler_def group_handlers_def map_of_map_upd)
  next
    case False
    then have "run_op op gs = gs" using RemoveHandler by (auto simp: remove_handler_def)
    moreover have "remove1 h (group_handlers gs g) = group_handlers gs g"
    proof (cases "g \<in> set (map fst gs)")
      case True
      then show ?thesis using False by (simp add: remove1_idem)
    next
      case False
      then have "map_of gs g = None" by (simp add: map_of_eq_None_iff)
      then show ?thesis by (simp add: group_handlers_def)
    qed
    ultimately show ?thesis using RemoveHandler by auto
  qed
qed

lemma run_ops_keys_ok: "keys_ok gs \<Longrightarrow> keys_ok (run_ops ops gs)"
  unfolding run_ops_def by (induction ops arbitrary: gs) (auto simp: run_op_keys_ok)

lemma run_ops_group:
  "keys_ok gs \<Longrightarrow> group_handlers (run_ops ops gs) k = foldl (registered_step k) (group_handlers gs k) ops"
  unfolding run_ops_def by (induction ops arbitrary: gs) (auto simp: run_op_keys_ok run_op_group)

lemma flat_by_group:
  "distinct (map fst gs) \<Longrightarrow> flat gs = concat (map (\<lambda>g. map (Pair g) (group_handlers gs g)) (map fst gs))"
proof (induction gs)
  case Nil
  then show ?case by (simp add: flat_def)
next
  case (Cons a gs)
  obtain g hs where a: "a = (g, hs)" by (cases a) auto
  have "\<forall>k \<in> set (map fst gs). group_handlers (a # gs) k = group_handlers gs k"
    using Cons.prems a by (auto simp: group_handlers_def)
  then have m: "map (\<lambda>g. map (Pair g) (group_handlers (a # gs) g)) (map fst gs)
           = map (\<lambda>g. map (Pair g) (group_handlers gs g)) (map fst gs)"
    by auto
  have f: "flat (a # gs) = map (Pair g) hs @ flat gs" by (simp add: flat_def a)
  have h: "group_handlers (a # gs) g = hs" by (simp add: group_handlers_def a)
  have ih: "flat gs = concat (map (\<lambda>g. map (Pair g) (group_handlers gs g)) (map fst gs))"
    using Cons by simp
  have "concat (map (\<lambda>g. map (Pair g) (group_handlers (a # gs) g)) (map fst (a # gs)))
      = map (Pair g) (group_handlers (a # gs) g)
        @ concat (map (\<lambda>g. map (Pair g) (group_handlers (a # gs) g)) (map fst gs))"
    by (simp add: a)
  also have "\<dots> = map (Pair g) hs @ flat gs"
    by (simp only: m h ih)
  finally show ?case using f by simp
qed

lemma snapshot_id: "snapshot gs = gs"
  by (induction gs) (auto simp: snapshot_def)

lemma run_ops_append: "run_ops (a @ b) gs = run_ops b (run_ops a gs)"
  by (simp add: run_ops_def)

lemma upto_first_takeWhile:
  "upto_first P xs = takeWhile (\<lambda>x. \<not> P x) xs @ (case find P xs of None \<Rightarrow> [] | Some x \<Rightarrow> [x])"
  by (induction xs) auto

lemma callback_errors_append: "callback_errors (xs @ ys) = callback_errors xs @ callback_errors ys"
  by (induction xs rule: callback_errors.induct) auto

lemma try_handler_unmatched:
  "\<not> matches H p h \<Longrightarrow> try_handler H p g h live = (e, evs, live') \<Longrightarrow> callback_errors evs = []"
  by (auto simp: try_handler_def run_callback_def matches_def split: hkind.splits prod.splits filter_result.splits cb_result.splits)

lemma try_handler_raise:
  assumes "matches H p h" and "fst (callback (H h) (handler_args H p h)) = CRaise err"
    and "try_handler H p g h live = (e, evs, live')"
  shows "e = Some Handled \<and> callback_errors evs = [(h, err)] \<and> last evs = CallbackError h err"
  using assms
  by (auto simp: try_handler_def run_callback_def matches_def handler_args_def
      split: hkind.splits prod.splits filter_result.splits cb_result.splits)

lemma run_group_raise:
  assumes "\<forall>h \<in> set hs. \<not> filter_cancelled H p h"
    and "find (matches H p) hs = Some h"
    and "fst (callback (H h) (handler_args H p h)) = CRaise err"
    and "run_group H p g hs live = (e, evs, live')"
  shows "e = Handled \<and> callback_errors evs = [(h, err)] \<and> last evs = CallbackError h err"
  using assms
proof (induction hs arbitrary: live e evs live')
  case Nil
  then show ?case by simp
next
  case (Cons x hs)
  obtain e1 evs1 live1 where t: "try_handler H p g x live = (e1, evs1, live1)"
    by (cases "try_handler H p g x live") auto
  have nc: "\<not> filter_cancelled H p x" using Cons.prems(1) by simp
  show ?case
  proof (cases "matches H p x")
    case True
    then have hx: "h = x" using Cons.prems(2) by simp
    from try_handler_raise[OF True _ t] Cons.prems(3) hx
    have "e1 = Some Handled \<and> callback_errors evs1 = [(h, err)] \<and> last evs1 = CallbackError h err"
      by simp
    then show ?thesis using Cons.prems(4) t by auto
  next
    case False
    then have e1: "e1 = None" using try_handler_None[OF nc t] by simp
    obtain e2 evs2 live2 where r: "run_group H p g hs live1 = (e2, evs2, live2)"
      by (cases "run_group H p g hs live1") auto
    have f: "find (matches H p) hs = Some h" using Cons.prems(2) False by simp
    have ih: "e2 = Handled \<and> callback_errors evs2 = [(h, err)] \<and> last evs2 = CallbackError h err"
      using Cons.IH[OF _ f Cons.prems(3) r] Cons.prems(1) by simp
    then have ne: "evs2 \<noteq> []" by auto
    from Cons.prems(4) t e1 r have "e = e2" "evs = evs1 @ evs2" by auto
    then show ?thesis using ih ne try_handler_unmatched[OF False t]
      by (simp add: callback_errors_append)
  qed
qed

lemma run_group_unmatched:
  assumes "\<forall>h \<in> set hs. \<not> matches H p h" and "run_group H p g hs live = (e, evs, live')"
  shows "callback_errors evs = []"
  using assms
proof (induction hs arbitrary: live e evs live')
  case Nil
  then show ?case by simp
next
  case (Cons x hs)
  obtain e1 evs1 live1 where t: "try_handler H p g x live = (e1, evs1, live1)"
    by (cases "try_handler H p g x live") auto
  obtain e2 evs2 live2 where r: "run_group H p g hs live1 = (e2, evs2, live2)"
    by (cases "run_group H p g hs live1") auto
  have x: "\<not> matches H p x" using Cons.prems(1) by simp
  have "callback_errors evs2 = []" using Cons.IH[OF _ r] Cons.prems(1) by simp
  moreover have "evs = evs1 \<or> evs = evs1 @ evs2" using Cons.prems(2) t r by (cases e1) auto
  ultimately show ?case using try_handler_unmatched[OF x t] by (auto simp: callback_errors_append)
qed

lemma find_flat_Cons:
  "find (\<lambda>(g, h). P h) (map (Pair g) hs @ rest) =
     (case find P hs of None \<Rightarrow> find (\<lambda>(g, h). P h) rest | Some h \<Rightarrow> Some (g, h))"
  by (induction hs) auto

lemma run_groups_raise:
  assumes "\<forall>(g, h) \<in> set (flat gs). \<not> filter_cancelled H p h"
    and "find (\<lambda>(g, h). matches H p h) (flat gs) = Some (g, h)"
    and "fst (callback (H h) (handler_args H p h)) = CRaise err"
    and "run_groups H p gs live = (e, evs, live')"
  shows "e = Handled \<and> callback_errors evs = [(h, err)] \<and> last evs = CallbackError h err"
  using assms
proof (induction gs arbitrary: live e evs live')
  case Nil
  then show ?case by (simp add: flat_def)
next
  case (Cons a gs)
  obtain k hs where a: "a = (k, hs)" by (cases a) auto
  have fl: "flat (a # gs) = map (Pair k) hs @ flat gs" by (simp add: flat_def a)
  obtain e1 evs1 live1 where t: "run_group H p k hs live = (e1, evs1, live1)"
    by (cases "run_group H p k hs live") auto
  have nc: "\<forall>h \<in> set hs. \<not> filter_cancelled H p h" using Cons.prems(1) fl by auto
  show ?case
  proof (cases "find (matches H p) hs")
    case None
    then have nm: "\<forall>h \<in> set hs. \<not> matches H p h" by (simp add: find_None_iff)
    then have e1: "e1 = NoMatch" using run_group_trace[OF nc t] by simp
    obtain e2 evs2 live2 where r: "run_groups H p gs live1 = (e2, evs2, live2)"
      by (cases "run_groups H p gs live1") auto
    have f: "find (\<lambda>(g, h). matches H p h) (flat gs) = Some (g, h)"
      using Cons.prems(2) None by (simp add: fl find_flat_Cons)
    have nc2: "\<forall>(g, h) \<in> set (flat gs). \<not> filter_cancelled H p h" using Cons.prems(1) fl by auto
    have ih: "e2 = Handled \<and> callback_errors evs2 = [(h, err)] \<and> last evs2 = CallbackError h err"
      using Cons.IH[OF nc2 f Cons.prems(3) r] .
    then have ne: "evs2 \<noteq> []" by auto
    from Cons.prems(4) t e1 r a have "e = e2" "evs = evs1 @ evs2" by auto
    then show ?thesis using ih ne run_group_unmatched[OF nm t]
      by (simp add: callback_errors_append)
  next
    case (Some x)
    then have "x = h" using Cons.prems(2) by (simp add: fl find_flat_Cons)
    then have g1: "e1 = Handled \<and> callback_errors evs1 = [(h, err)] \<and> last evs1 = CallbackError h err"
      using run_group_raise[OF nc _ Cons.prems(3) t] Some by simp
    then show ?thesis using Cons.prems(4) t a by auto
  qed
qed

lemma example_registry: "run_ops example_ops [] = [(0, [11, 12]), (1, [13])]"
  by (simp add: example_ops_def run_ops_def add_handler_def)

lemma example_dispatch:
  "dispatch example_H example_packet [(0, [11, 12]), (1, [13])] =
     (Handled, [Visit 0 11, Visit 0 12, Invoke 12 (Args1 7), CallbackError 12 ''boom''],
      [(0, [11, 12, 14]), (1, [])])"
  by (simp add: dispatch_def snapshot_def try_handler_def run_callback_def example_H_def
      example_packet_def run_ops_def add_handler_def remove_handler_def group_handlers_def)

text \<open>
  Claim C1. Take the registry built by any sequence of registrations and removals, and a
  pass over it in which no filter is cancelled. The group numbers are in strictly
  ascending order, and the handlers are reached group by group, those of a group in
  the order of their registration. The pass looks at the handlers in that order up to
  and including the first one that matches, invokes the callback of that handler and
  of no other, and looks at no handler after it, in its group or in a later one. When
  no handler matches, the pass ends with no callback invoked.
\<close>

theorem dispatch_first_match_wins:
  assumes "gs = run_ops ops []"
    and "\<forall>(g, h) \<in> set (flat gs). \<not> filter_cancelled H p h"
    and "dispatch H p gs = (e, evs, live')"
  shows "sorted_wrt (<) (map fst gs)
       \<and> flat gs = concat (map (\<lambda>g. map (Pair g) (registered ops g)) (map fst gs))
       \<and> visits evs = upto_first (\<lambda>(g, h). matches H p h) (flat gs)
       \<and> invoked evs = (case find (\<lambda>(g, h). matches H p h) (flat gs) of
                           None \<Rightarrow> [] | Some (g, h) \<Rightarrow> [h])
       \<and> ((\<forall>(g, h) \<in> set (flat gs). \<not> matches H p h) \<longrightarrow> e = NoMatch \<and> invoked evs = [])"
proof -
  have k0: "keys_ok []" by (simp add: keys_ok_def)
  have k: "keys_ok gs" using run_ops_keys_ok[OF k0] assms(1) by simp
  then have d: "distinct (map fst gs)" by (simp add: keys_ok_iff)
  have r: "\<And>g. group_handlers gs g = registered ops g"
    using run_ops_group[OF k0] assms(1) by (simp add: registered_def group_handlers_def)
  have f: "flat gs = concat (map (\<lambda>g. map (Pair g) (registered ops g)) (map fst gs))"
    using flat_by_group[OF d] by (simp only: r)
  have t: "run_groups H p gs gs = (e, evs, live')"
    using assms(3) by (simp add: dispatch_def snapshot_id)
  note c = run_groups_trace[OF assms(2) t]
  have n: "(\<forall>(g, h) \<in> set (flat gs). \<not> matches H p h) \<longrightarrow> e = NoMatch \<and> invoked evs = []"
  proof
    assume a: "\<forall>(g, h) \<in> set (flat gs). \<not> matches H p h"
    then have "find (\<lambda>(g, h). matches H p h) (flat gs) = None"
      by (auto simp: find_None_iff)
    then show "e = NoMatch \<and> invoked evs = []" using c a by simp
  qed
  show ?thesis using k f c n by (simp add: keys_ok_def)
qed

text \<open>The example registry: the second handler of group 0 matches; group 1 is not reached.\<close>

theorem dispatch_first_match_wins_witness:
  "dispatch example_H example_packet (run_ops example_ops []) =
     (Handled, [Visit 0 11, Visit 0 12, Invoke 12 (Args1 7), CallbackError 12 ''boom''],
      [(0, [11, 12, 14]), (1, [])])
   \<and> visits [Visit 0 11, Visit 0 12, Invoke 12 (Args1 7), CallbackError 12 ''boom''] =
       upto_first (\<lambda>(g, h). matches example_H example_packet h) (flat (run_ops example_ops []))
   \<and> invoked [Visit 0 11, Visit 0 12, Invoke 12 (Args1 7), CallbackError 12 ''boom''] = [12]"
proof -
  have h2: "\<forall>(g, h) \<in> set (flat (run_ops example_ops [])). \<not> filter_cancelled example_H example_packet h"
    by (simp add: example_registry flat_def filter_cancelled_def example_H_def)
  have h3: "dispatch example_H example_packet (run_ops example_ops []) =
     (Handled, [Visit 0 11, Visit 0 12, Invoke 12 (Args1 7), CallbackError 12 ''boom''],
      [(0, [11, 12, 14]), (1, [])])"
    by (simp add: example_registry example_dispatch)
  have f: "find (\<lambda>(g, h). matches example_H example_packet h) (flat (run_ops example_ops [])) = Some (0, 12)"
    by (simp add: example_registry flat_def matches_def example_H_def)
  show ?thesis
    using dispatch_first_match_wins[OF refl h2 h3] h2 h3 f by simp
qed

text \<open>
  Claim C10. When the callback of the first matching handler raises an ordinary
  exception, the error is logged as the last thing the pass does, the pass ends as
  after a callback that returned, no handler after the failing one is looked at, and
  the worker goes on with the rest of the queue.
\<close>

theorem callback_error_ends_pass:
  assumes "gs1 = run_ops pre gs"
    and "\<forall>(g, h) \<in> set (flat gs1). \<not> filter_cancelled H p h"
    and "find (\<lambda>(g, h). matches H p h) (flat gs1) = Some (g, h)"
    and "fst (callback (H h) (handler_args H p h)) = CRaise err"
    and "dispatch H p gs1 = (e, evs, gs')"
  shows "e = Handled
       \<and> callback_errors evs = [(h, err)]
       \<and> last evs = CallbackError h err
       \<and> invoked evs = [h]
       \<and> visits evs = takeWhile (\<lambda>(g, h). \<not> matches H p h) (flat gs1) @ [(g, h)]
       \<and> handler_worker H gs ((pre, Some p) # q) =
           (case handler_worker H gs' q of (st, evs', gs'') \<Rightarrow> (st, evs @ evs', gs''))"
proof -
  have t: "run_groups H p gs1 gs1 = (e, evs, gs')"
    using assms(5) by (simp add: dispatch_def snapshot_id)
  note a = run_groups_raise[OF assms(2) assms(3) assms(4) t]
  note b = run_groups_trace[OF assms(2) t]
  have l: "(\<lambda>x. \<not> (case x of (g, h) \<Rightarrow> matches H p h)) = (\<lambda>(g, h). \<not> matches H p h)"
    by (auto simp: fun_eq_iff)
  have v: "visits evs = takeWhile (\<lambda>(g, h). \<not> matches H p h) (flat gs1) @ [(g, h)]"
    using b assms(3) by (simp add: upto_first_takeWhile l)
  have w: "handler_worker H gs ((pre, Some p) # q) =
           (case handler_worker H gs' q of (st, evs', gs'') \<Rightarrow> (st, evs @ evs', gs''))"
    using assms(1) assms(5) a by simp
  show ?thesis using a b v w assms(3) by simp
qed

text \<open>The example registry again: the callback of handler 12 raises, the worker goes on to the stop marker.\<close>

theorem callback_error_ends_pass_witness:
  "find (\<lambda>(g, h). matches example_H example_packet h) (flat (run_ops example_ops [])) = Some (0, 12)
   \<and> fst (callback (example_H 12) (handler_args example_H example_packet 12)) = CRaise ''boom''
   \<and> dispatch example_H example_packet (run_ops example_ops []) =
       (Handled, [Visit 0 11, Visit 0 12, Invoke 12 (Args1 7), CallbackError 12 ''boom''],
        [(0, [11, 12, 14]), (1, [])])
   \<and> handler_worker example_H [] [(example_ops, Some example_packet), ([], None)] =
       (Exited, [Visit 0 11, Visit 0 12, Invoke 12 (Args1 7), CallbackError 12 ''boom''],
        [(0, [11, 12, 14]), (1, [])])"
proof -
  have h2: "\<forall>(g, h) \<in> set (flat (run_ops example_ops [])). \<not> filter_cancelled example_H example_packet h"
    by (simp add: example_registry flat_def filter_cancelled_def example_H_def)
  have h3: "find (\<lambda>(g, h). matches example_H example_packet h) (flat (run_ops example_ops [])) = Some (0, 12)"
    by (simp add: example_registry flat_def matches_def example_H_def)
  have h4: "fst (callback (example_H 12) (handler_args example_H example_packet 12)) = CRaise ''boom''"
    by (simp add: example_H_def)
  have h5: "dispatch example_H example_packet (run_ops example_ops []) =
     (Handled, [Visit 0 11, Visit 0 12, Invoke 12 (Args1 7), CallbackError 12 ''boom''],
      [(0, [11, 12, 14]), (1, [])])"
    by (simp add: example_registry example_dispatch)
  have r: "run_ops [] [(0, [11, 12, 14]), (1, [])] = [(0, [11, 12, 14]), (1, [])]"
    by (simp add: run_ops_def)
  show ?thesis
    using callback_error_ends_pass[OF refl h2 h3 h4 h5, of "[([], None)]"] h2 h3 h4 h5 r by simp
qed

lemma run_ops_Nil: "run_ops [] gs = gs"
  by (simp add: run_ops_def)

subsection \<open>The dispatcher on the event loop\<close>

lemma run_acts_Nil: "run_acts [] st = st"
  by (simp add: run_acts_def)

lemma run_acts_append: "run_acts (a @ b) st = run_acts b (run_acts a st)"
  by (simp add: run_acts_def)

lemma run_acts_calls: "run_acts (map Call ops) st = (fst st, snd st @ ops)"
proof (induction ops arbitrary: st)
  case Nil
  then show ?case by (simp add: run_acts_def)
next
  case (Cons op ops)
  obtain live pend where st: "st = (live, pend)" by (cases st) auto
  have "run_acts (map Call (op # ops)) st = run_acts (map Call ops) (live, pend @ [op])"
    by (simp add: run_acts_def st)
  then show ?case using Cons[of "(live, pend @ [op])"] by (simp add: st)
qed

lemma run_acts_suspend:
  "run_acts [Suspend others left] st = (run_ops (snd st @ others) (fst st), left)"
  by (cases st) (simp add: run_acts_def)

lemma loop_callback_forget:
  assumes "loop_callback L h a st = (e, evs, st')"
  shows "run_callback (forget L) h a l2 = (e, evs, l2)
       \<and> st' = run_acts (snd (lcallback (L h) a)) st"
  using assms
  by (auto simp: loop_callback_def run_callback_def forget_def run_ops_Nil
      split: prod.splits cb_result.splits)

lemma loop_try_handler_forget:
  assumes "loop_try_handler L p g h st = (e, evs, st')"
  shows "try_handler (forget L) p g h l2 = (e, evs, l2)
       \<and> st' = run_acts (handler_acts L p h) st
       \<and> (e = None) = (\<not> (matches (forget L) p h \<or> filter_cancelled (forget L) p h))"
proof (cases "lkind (L h)")
  case NewMessageEvent
  obtain fr acts where f: "lfilter (L h) (update p) = (fr, acts)"
    by (cases "lfilter (L h) (update p)") auto
  have k: "kind (forget L h) = NewMessageEvent" "hfilter (forget L h) (update p) = (fr, [])"
    using NewMessageEvent f by (simp_all add: forget_def)
  show ?thesis
  proof (cases "fr = FTrue")
    case True
    obtain e1 evs1 st1 where c: "loop_callback L h (Args1 (update p)) (run_acts acts st) = (e1, evs1, st1)"
      by (cases "loop_callback L h (Args1 (update p)) (run_acts acts st)") auto
    note q = loop_callback_forget[OF c, of l2]
    have r: "e = e1" "evs = Visit g h # evs1" "st' = st1"
      using assms NewMessageEvent f True c by (simp_all add: loop_try_handler_def)
    have ne: "e1 \<noteq> None"
      using c by (auto simp: loop_callback_def split: prod.splits cb_result.splits)
    show ?thesis
      using q r ne k True f NewMessageEvent
      by (auto simp: try_handler_def handler_acts_def matches_def filter_cancelled_def
          run_ops_Nil run_acts_append)
  next
    case False
    then show ?thesis
      using assms NewMessageEvent f k
      by (cases fr)
         (auto simp: loop_try_handler_def try_handler_def handler_acts_def matches_def
           filter_cancelled_def run_ops_Nil)
  qed
next
  case Raw
  obtain e1 evs1 st1 where c: "loop_callback L h (Args3 (update p) (users p) (chats p)) st = (e1, evs1, st1)"
    by (cases "loop_callback L h (Args3 (update p) (users p) (chats p)) st") auto
  note q = loop_callback_forget[OF c, of l2]
  have r: "e = e1" "evs = Visit g h # evs1" "st' = st1"
    using assms Raw c by (simp_all add: loop_try_handler_def)
  have ne: "e1 \<noteq> None"
    using c by (auto simp: loop_callback_def split: prod.splits cb_result.splits)
  have k: "kind (forget L h) = Raw" using Raw by (simp add: forget_def)
  show ?thesis
    using q r ne k Raw
    by (auto simp: try_handler_def handler_acts_def matches_def filter_cancelled_def)
next
  case OtherKind
  have k: "kind (forget L h) = OtherKind" using OtherKind by (simp add: forget_def)
  show ?thesis
    using assms OtherKind k
    by (auto simp: loop_try_handler_def try_handler_def handler_acts_def matches_def
        filter_cancelled_def run_acts_Nil)
qed

lemma loop_try_handler_not_NoMatch:
  "loop_try_handler L p g h st = (Some e, evs, st') \<Longrightarrow> e \<noteq> NoMatch"
  using loop_try_handler_forget[of L p g h st "Some e" evs st' "[]"] try_handler_not_NoMatch
  by blast

lemma loop_run_group_forget:
  assumes "loop_run_group L p g hs st = (e, evs, st')"
  shows "run_group (forget L) p g hs l2 = (e, evs, l2)
       \<and> st' = run_acts (pass_acts L p hs) st
       \<and> (e = NoMatch) = (\<forall>h \<in> set hs. \<not> (matches (forget L) p h \<or> filter_cancelled (forget L) p h))"
  using assms
proof (induction hs arbitrary: st e evs st')
  case Nil
  then show ?case by (simp add: run_acts_Nil)
next
  case (Cons x hs)
  obtain e1 evs1 st1 where t: "loop_try_handler L p g x st = (e1, evs1, st1)"
    by (cases "loop_try_handler L p g x st") auto
  note q = loop_try_handler_forget[OF t, of l2]
  show ?case
  proof (cases e1)
    case None
    obtain e2 evs2 st2 where r: "loop_run_group L p g hs st1 = (e2, evs2, st2)"
      by (cases "loop_run_group L p g hs st1") auto
    note ih = Cons.IH[OF r]
    from Cons.prems t None r have "e = e2" "evs = evs1 @ evs2" "st' = st2" by auto
    then show ?thesis using ih q None by (auto simp: run_acts_append)
  next
    case (Some e')
    from Cons.prems t Some have "e = e'" "evs = evs1" "st' = st1" by auto
    moreover have "e' \<noteq> NoMatch" using loop_try_handler_not_NoMatch t Some by blast
    ultimately show ?thesis using q Some by auto
  qed
qed

lemma pass_acts_append:
  "pass_acts L p (xs @ ys) =
     (if \<forall>h \<in> set xs. \<not> (matches (forget L) p h \<or> filter_cancelled (forget L) p h)
      then pass_acts L p xs @ pass_acts L p ys else pass_acts L p xs)"
  by (induction xs) auto

lemma loop_run_groups_forget:
  assumes "loop_run_groups L p gs st = (e, evs, st')"
  shows "run_groups (forget L) p gs l2 = (e, evs, l2)
       \<and> st' = run_acts (pass_acts L p (map snd (flat gs))) st"
  using assms
proof (induction gs arbitrary: st e evs st')
  case Nil
  then show ?case by (simp add: run_acts_Nil flat_def)
next
  case (Cons a gs)
  obtain k hs where a: "a = (k, hs)" by (cases a) auto
  have fl: "map snd (flat (a # gs)) = hs @ map snd (flat gs)"
    by (simp add: flat_def a comp_def)
  obtain e1 evs1 st1 where t: "loop_run_group L p k hs st = (e1, evs1, st1)"
    by (cases "loop_run_group L p k hs st") auto
  note q = loop_run_group_forget[OF t, of l2]
  show ?case
  proof (cases "e1 = NoMatch")
    case True
    obtain e2 evs2 st2 where r: "loop_run_groups L p gs st1 = (e2, evs2, st2)"
      by (cases "loop_run_groups L p gs st1") auto
    note ih = Cons.IH[OF r]
    from Cons.prems t True r a have "e = e2" "evs = evs1 @ evs2" "st' = st2" by auto
    then show ?thesis using ih q True a fl by (auto simp: run_acts_append pass_acts_append)
  next
    case False
    from Cons.prems t False a have "e = e1" "evs = evs1" "st' = st1"
      by (auto split: pass_end.splits)
    then show ?thesis using q False a fl by (auto simp: pass_acts_append split: pass_end.splits)
  qed
qed

lemma loop_dispatch_forget:
  assumes "loop_dispatch L p (gs, pending) = (e, evs, st')"
  shows "dispatch (forget L) p gs = (e, evs, gs)
       \<and> st' = run_acts (pass_acts L p (map snd (flat gs))) (gs, pending)"
  using loop_run_groups_forget[of L p gs "(gs, pending)" e evs st' gs] assms
  by (simp add: loop_dispatch_def dispatch_def snapshot_id)


lemma example_L_first:
  "loop_dispatch example_L \<lparr>update = 41, users = [], chats = []\<rparr> ([(0, [31])], []) =
     (Handled, [Visit 0 31, Invoke 31 (Args1 41)], ([(0, [31])], [AddHandler 32 0]))"
  by (simp add: loop_dispatch_def snapshot_def loop_try_handler_def loop_callback_def
      example_L_def run_acts_def)

lemma example_L_second:
  "loop_dispatch example_L \<lparr>update = 42, users = [], chats = []\<rparr>
       ([(0, [31])], [AddHandler 32 0]) =
     (NoMatch, [Visit 0 31], ([(0, [31])], [AddHandler 32 0]))"
  by (simp add: loop_dispatch_def snapshot_def loop_try_handler_def loop_callback_def
      example_L_def run_acts_def)

lemma example_L_third:
  "loop_dispatch example_L \<lparr>update = 43, users = [], chats = []\<rparr> ([(0, [31, 32])], []) =
     (Handled, [Visit 0 31, Visit 0 32, Invoke 32 (Args3 43 [] [])], ([(0, [31, 32])], []))"
  by (simp add: loop_dispatch_def snapshot_def loop_try_handler_def loop_callback_def
      example_L_def run_acts_def)

lemma example_L_arrivals:
  "run_ops [AddHandler 31 0] [] = [(0, [31])]"
  "run_ops [AddHandler 32 0] [(0, [31])] = [(0, [31, 32])]"
  by (simp_all add: run_ops_def add_handler_def)

lemma example_L_worker:
  "loop_worker example_L ([], []) example_queue =
     (Exited,
      [Visit 0 31, Invoke 31 (Args1 41), Visit 0 31,
       Visit 0 31, Visit 0 32, Invoke 32 (Args3 43 [] [])],
      ([(0, [31, 32])], []))"
  by (simp add: example_queue_def example_L_arrivals example_L_first example_L_second
      example_L_third)

text \<open>
  Claim C7, as stated, fails. The callback of handler 31 registers handler 32 during the
  pass for update 41 and returns; update 42 is in the queue already. The pass for update
  42 is over the registry without handler 32, which would have taken the update: the
  task that \<^verbatim>\<open>add_handler\<close> created has not run. It runs while the worker waits for
  update 43, whose pass delivers to handler 32.
\<close>

theorem new_handler_missed_by_next_pass:
  "loop_dispatch example_L \<lparr>update = 41, users = [], chats = []\<rparr>
       (arrive (Waited [AddHandler 31 0] []) ([], [])) =
     (Handled, [Visit 0 31, Invoke 31 (Args1 41)], ([(0, [31])], [AddHandler 32 0]))
   \<and> loop_dispatch example_L \<lparr>update = 42, users = [], chats = []\<rparr>
       (arrive Ready ([(0, [31])], [AddHandler 32 0])) =
     (NoMatch, [Visit 0 31], ([(0, [31])], [AddHandler 32 0]))
   \<and> matches (forget example_L) \<lparr>update = 42, users = [], chats = []\<rparr> 32
   \<and> loop_worker example_L ([], []) example_queue =
       (Exited,
        [Visit 0 31, Invoke 31 (Args1 41), Visit 0 31,
         Visit 0 31, Visit 0 32, Invoke 32 (Args3 43 [] [])],
        ([(0, [31, 32])], []))"
  by (simp add: example_L_arrivals example_L_first example_L_second example_L_worker
      matches_def forget_def example_L_def)

text \<open>
  Claim C7, amended. A pass works on the copy of the registry taken under the mutex at
  its start: it ends the same way and does the same things, in the same order, whatever
  its filters and callbacks register or remove and whatever registration tasks run
  meanwhile. \<^verbatim>\<open>add_handler\<close> and \<^verbatim>\<open>remove_handler\<close> only create a task: the calls
  of a filter or callback leave the registry as it is and their tasks pending, and the
  pending tasks run, in the order of their creation, when the worker is next suspended.
  The pass for the next update starts from the registry as the first pass left it when
  the update is in the queue already, and from the registry changed by the pending tasks
  when the worker had to wait for the update: a change is visible from the first pass
  that starts after its task has run.
\<close>

theorem registration_visible_after_task_ran:
  assumes "loop_dispatch L p (gs, pending) = (e, evs, st')"
  shows "dispatch (forget L) p gs = (e, evs, gs)
       \<and> st' = run_acts (pass_acts L p (map snd (flat gs))) (gs, pending)
       \<and> run_acts (acts @ map Call ops) st =
           (fst (run_acts acts st), snd (run_acts acts st) @ ops)
       \<and> run_acts (acts @ [Suspend others left]) st =
           (run_ops (snd (run_acts acts st) @ others) (fst (run_acts acts st)), left)
       \<and> (arrive a st0 = (gs, pending) \<and> e \<noteq> Cancelled \<longrightarrow>
            loop_worker L st0 ((a, Some p) # (a2, Some p2) # q) =
              (case loop_dispatch L p2 (arrive a2 st') of
                 (Cancelled, evs2, st2) \<Rightarrow> (Died, evs @ evs2, st2)
               | (e2, evs2, st2) \<Rightarrow>
                   (case loop_worker L st2 q of (w, evs3, st3) \<Rightarrow> (w, evs @ evs2 @ evs3, st3))))
       \<and> arrive Ready st' = st'
       \<and> arrive (Waited others left) st' = (run_ops (snd st' @ others) (fst st'), left)
       \<and> (loop_dispatch L p2 st' = (e2, evs2, st2) \<longrightarrow>
            dispatch (forget L) p2 (fst st') = (e2, evs2, fst st'))"
proof -
  note f = loop_dispatch_forget[OF assms]
  have c: "run_acts (acts @ map Call ops) st =
           (fst (run_acts acts st), snd (run_acts acts st) @ ops)"
    by (simp add: run_acts_append run_acts_calls)
  have d: "run_acts (acts @ [Suspend others left]) st =
           (run_ops (snd (run_acts acts st) @ others) (fst (run_acts acts st)), left)"
    by (simp add: run_acts_append run_acts_suspend)
  have w: "arrive a st0 = (gs, pending) \<and> e \<noteq> Cancelled \<longrightarrow>
            loop_worker L st0 ((a, Some p) # (a2, Some p2) # q) =
              (case loop_dispatch L p2 (arrive a2 st') of
                 (Cancelled, evs2, st2) \<Rightarrow> (Died, evs @ evs2, st2)
               | (e2, evs2, st2) \<Rightarrow>
                   (case loop_worker L st2 q of (w, evs3, st3) \<Rightarrow> (w, evs @ evs2 @ evs3, st3)))"
  proof
    assume h: "arrive a st0 = (gs, pending) \<and> e \<noteq> Cancelled"
    obtain e2 evs2 st2 where d2: "loop_dispatch L p2 (arrive a2 st') = (e2, evs2, st2)"
      by (cases "loop_dispatch L p2 (arrive a2 st')") auto
    obtain w evs3 st3 where w3: "loop_worker L st2 q = (w, evs3, st3)"
      by (cases "loop_worker L st2 q") auto
    show "loop_worker L st0 ((a, Some p) # (a2, Some p2) # q) =
              (case loop_dispatch L p2 (arrive a2 st') of
                 (Cancelled, evs2, st2) \<Rightarrow> (Died, evs @ evs2, st2)
               | (e2, evs2, st2) \<Rightarrow>
                   (case loop_worker L st2 q of (w, evs3, st3) \<Rightarrow> (w, evs @ evs2 @ evs3, st3)))"
      using h assms d2 w3 by (cases e; cases e2) simp_all
  qed
  have r: "arrive Ready st' = st'" by simp
  have v: "arrive (Waited others left) st' = (run_ops (snd st' @ others) (fst st'), left)"
    by (cases st') simp
  have n: "loop_dispatch L p2 st' = (e2, evs2, st2) \<longrightarrow>
            dispatch (forget L) p2 (fst st') = (e2, evs2, fst st')"
    using loop_dispatch_forget[of L p2 "fst st'" "snd st'" e2 evs2 st2] by simp
  show ?thesis using f c d w r v n by blast
qed

text \<open>
  The example: the first pass leaves the task of handler 32 pending; the second pass,
  for an update that was ready, is over handler 31 alone; the whole run of the worker.
\<close>

theorem registration_visible_after_task_ran_witness:
  "dispatch (forget example_L) \<lparr>update = 41, users = [], chats = []\<rparr> [(0, [31])] =
     (Handled, [Visit 0 31, Invoke 31 (Args1 41)], [(0, [31])])
   \<and> run_acts (map Call [AddHandler 32 0]) ([(0, [31])], []) = ([(0, [31])], [AddHandler 32 0])
   \<and> run_acts [Suspend [] []] ([(0, [31])], [AddHandler 32 0]) = ([(0, [31, 32])], [])
   \<and> dispatch (forget example_L) \<lparr>update = 42, users = [], chats = []\<rparr> [(0, [31])] =
       (NoMatch, [Visit 0 31], [(0, [31])])
   \<and> loop_worker example_L ([], []) example_queue =
       (Exited,
        [Visit 0 31, Invoke 31 (Args1 41), Visit 0 31,
         Visit 0 31, Visit 0 32, Invoke 32 (Args3 43 [] [])],
        ([(0, [31, 32])], []))"
proof -
  let ?p1 = "\<lparr>update = 41, users = [], chats = []\<rparr>"
  let ?p2 = "\<lparr>update = 42, users = [], chats = []\<rparr>"
  let ?q = "[(Waited [] [], Some \<lparr>update = 43, users = [], chats = []\<rparr>), (Ready, None)]"
  note t = registration_visible_after_task_ran[OF example_L_first,
      where acts = "[]" and ops = "[AddHandler 32 0]" and st = "([(0, [31])], [])"
        and others = "[]" and left = "[]" and a = "Waited [AddHandler 31 0] []"
        and ?st0.0 = "([], [])" and ?a2.0 = Ready and ?p2.0 = ?p2 and q = ?q
        and ?e2.0 = NoMatch and ?evs2.0 = "[Visit 0 31]"
        and ?st2.0 = "([(0, [31])], [AddHandler 32 0])"]
  have a: "dispatch (forget example_L) ?p1 [(0, [31])] =
     (Handled, [Visit 0 31, Invoke 31 (Args1 41)], [(0, [31])])"
    using t by blast
  have b: "run_acts (map Call [AddHandler 32 0]) ([(0, [31])], []) = ([(0, [31])], [AddHandler 32 0])"
    using t by (simp add: run_acts_Nil)
  have c: "dispatch (forget example_L) ?p2 [(0, [31])] = (NoMatch, [Visit 0 31], [(0, [31])])"
    using t example_L_second by simp
  have h: "arrive (Waited [AddHandler 31 0] []) ([], []) = ([(0, [31])], []) \<and> Handled \<noteq> Cancelled"
    by (simp add: example_L_arrivals)
  have "loop_worker example_L ([], []) ((Waited [AddHandler 31 0] [], Some ?p1) # (Ready, Some ?p2) # ?q) =
      (case loop_dispatch example_L ?p2 (arrive Ready ([(0, [31])], [AddHandler 32 0])) of
                 (Cancelled, evs2, st2) \<Rightarrow> (Died, [Visit 0 31, Invoke 31 (Args1 41)] @ evs2, st2)
               | (e2, evs2, st2) \<Rightarrow>
                   (case loop_worker example_L st2 ?q of
                      (w, evs3, st3) \<Rightarrow> (w, [Visit 0 31, Invoke 31 (Args1 41)] @ evs2 @ evs3, st3)))"
    using t h by blast
  then have d: "loop_worker example_L ([], []) example_queue =
       (Exited,
        [Visit 0 31, Invoke 31 (Args1 41), Visit 0 31,
         Visit 0 31, Visit 0 32, Invoke 32 (Args3 43 [] [])],
        ([(0, [31, 32])], []))"
    by (simp add: example_queue_def example_L_second example_L_third example_L_arrivals)
  have e: "run_acts [Suspend [] []] ([(0, [31])], [AddHandler 32 0]) = ([(0, [31, 32])], [])"
    by (simp add: run_acts_def run_ops_def add_handler_def)
  show ?thesis using a b c d e by blast
qed

section \<open>Properties of the relay request\<close>

lemma sends_append: "sends (xs @ ys) = sends xs @ sends ys"
  by (induction xs rule: sends.induct) auto

lemma sleeps_append: "sleeps (xs @ ys) = sleeps xs @ sleeps ys"
  by (induction xs rule: sleeps.induct) auto

lemma waits_append: "waits (xs @ ys) = waits xs @ waits ys"
  by (induction xs rule: waits.induct) auto

lemma started_append: "started (xs @ ys) = started xs + started ys"
  by (induction xs rule: started.induct) auto

lemma log_fields [simp]:
  "cache (log l m s) = cache s" "clock (log l m s) = clock s"
  "transcript (log l m s) = transcript s" "handlers (log l m s) = handlers s"
  "next_handler (log l m s) = next_handler s" "trace (log l m s) = trace s @ [Log l m]"
  by (simp_all add: log_def)

lemma sleep_fields [simp]:
  "cache (sleep n s) = cache s" "clock (sleep n s) = clock s + n"
  "transcript (sleep n s) = transcript s" "handlers (sleep n s) = handlers s"
  "next_handler (sleep n s) = next_handler s" "trace (sleep n s) = trace s @ [Sleep n]"
  by (simp_all add: sleep_def)

lemma waited_fields [simp]:
  "cache (waited n s) = cache s" "clock (waited n s) = clock s + n"
  "transcript (waited n s) = transcript s" "handlers (waited n s) = handlers s"
  "next_handler (waited n s) = next_handler s" "trace (waited n s) = trace s @ [WaitFor n]"
  by (simp_all add: waited_def)

lemma cache_set_fields [simp]:
  "cache (cache_set k v ttl s) = (k, v, clock s + ttl) # cache s"
  "clock (cache_set k v ttl s) = clock s"
  "transcript (cache_set k v ttl s) = transcript s" "handlers (cache_set k v ttl s) = handlers s"
  "next_handler (cache_set k v ttl s) = next_handler s"
  "trace (cache_set k v ttl s) = trace s @ [CacheSet k v ttl]"
  by (simp_all add: cache_set_def)

lemma delete_messages_fields [simp]:
  "cache (delete_messages ms s) = cache s" "clock (delete_messages ms s) = clock s"
  "handlers (delete_messages ms s) = handlers s"
  "next_handler (delete_messages ms s) = next_handler s"
  "set (transcript (delete_messages ms s)) = set (transcript s) - set ms"
  "trace (delete_messages ms s) = trace s @ deletions ms"
  by (induction ms arbitrary: s; auto)+

lemma deletions_quiet [simp]:
  "sends (deletions ms) = []" "sleeps (deletions ms) = []" "waits (deletions ms) = []"
  "started (deletions ms) = 0"
  by (induction ms; simp)+

lemma remove_event_handler_fields [simp]:
  "cache (remove_event_handler h s) = cache s" "clock (remove_event_handler h s) = clock s"
  "transcript (remove_event_handler h s) = transcript s"
  "handlers (remove_event_handler h s) = handlers s"
  "next_handler (remove_event_handler h s) = next_handler s"
  "trace (remove_event_handler h s) = trace s @ [RemoveEventHandler h]"
  by (simp_all add: remove_event_handler_def)

lemma cleanup_fields [simp]:
  "cache (cleanup ms h s) = cache s" "clock (cleanup ms h s) = clock s"
  "set (transcript (cleanup ms h s)) = set (transcript s) - set ms"
  "handlers (cleanup ms h s) = handlers s"
  "next_handler (cleanup ms h s) = next_handler s"
  "trace (cleanup ms h s) = trace s @ deletions ms @ [RemoveEventHandler h]"
  by (simp_all add: cleanup_def)

lemma sent_fields [simp]:
  "cache (sent rq m s) = cache s" "clock (sent rq m s) = clock s"
  "transcript (sent rq m s) = Outbound m # transcript s" "handlers (sent rq m s) = handlers s"
  "next_handler (sent rq m s) = next_handler s"
  "sends (trace (sent rq m s)) = sends (trace s) @ [m]"
  "sleeps (trace (sent rq m s)) = sleeps (trace s)"
  "waits (trace (sent rq m s)) = waits (trace s)"
  "started (trace (sent rq m s)) = started (trace s)"
  by (simp_all add: sent_def sends_append sleeps_append waits_append started_append)

lemma set_result_fields [simp]:
  "cache (snd (set_result t st)) = cache (snd st)" "clock (snd (set_result t st)) = clock (snd st)"
  "transcript (snd (set_result t st)) = transcript (snd st)"
  "handlers (snd (set_result t st)) = handlers (snd st)"
  "next_handler (snd (set_result t st)) = next_handler (snd st)"
  "sends (trace (snd (set_result t st))) = sends (trace (snd st))"
  "sleeps (trace (snd (set_result t st))) = sleeps (trace (snd st))"
  "waits (trace (snd (set_result t st))) = waits (trace (snd st))"
  "started (trace (snd (set_result t st))) = started (trace (snd st))"
  by (simp_all add: set_result_def sends_append sleeps_append waits_append started_append split: option.splits)

lemma set_result_fst: "fst (set_result t st) = (case fst st of None \<Rightarrow> Some t | Some u \<Rightarrow> Some u)"
  by (simp add: set_result_def split: option.splits)

lemma handler_try_fields [simp]:
  "cache (snd (handler_try rq ev st)) = cache (snd st)"
  "clock (snd (handler_try rq ev st)) = clock (snd st)"
  "transcript (snd (handler_try rq ev st)) = transcript (snd st)"
  "handlers (snd (handler_try rq ev st)) = handlers (snd st)"
  "next_handler (snd (handler_try rq ev st)) = next_handler (snd st)"
  "sends (trace (snd (handler_try rq ev st))) = sends (trace (snd st))"
  "sleeps (trace (snd (handler_try rq ev st))) = sleeps (trace (snd st))"
  "waits (trace (snd (handler_try rq ev st))) = waits (trace (snd st))"
  "started (trace (snd (handler_try rq ev st))) = started (trace (snd st))"
  by (simp_all add: handler_try_def sends_append sleeps_append waits_append started_append
      split: option.splits cond_result.splits)

lemma message_handler_fields [simp]:
  "cache (snd (message_handler rq ev st)) = cache (snd st)"
  "clock (snd (message_handler rq ev st)) = clock (snd st)"
  "handlers (snd (message_handler rq ev st)) = handlers (snd st)"
  "next_handler (snd (message_handler rq ev st)) = next_handler (snd st)"
  "sends (trace (snd (message_handler rq ev st))) = sends (trace (snd st))"
  "sleeps (trace (snd (message_handler rq ev st))) = sleeps (trace (snd st))"
  "waits (trace (snd (message_handler rq ev st))) = waits (trace (snd st))"
  "started (trace (snd (message_handler rq ev st))) = started (trace (snd st))"
  by (simp_all add: message_handler_def sends_append sleeps_append waits_append started_append)

lemma message_handler_transcript:
  "set (transcript (snd (message_handler rq ev st))) =
     (if chat_id ev = bot then set (transcript (snd st)) - {Inbound (message ev)}
      else set (transcript (snd st)))"
  by (simp add: message_handler_def)

lemma message_handler_fst:
  "fst (message_handler rq ev st) =
     (case fst st of None \<Rightarrow> accepts rq ev | Some u \<Rightarrow> Some u)"
  by (auto simp: message_handler_def handler_try_def accepts_def set_result_fst
      split: option.splits cond_result.splits)

lemma deliver_fields [simp]:
  "cache (snd (deliver rq st ev)) = cache (snd st)"
  "clock (snd (deliver rq st ev)) = clock (snd st)"
  "handlers (snd (deliver rq st ev)) = handlers (snd st)"
  "next_handler (snd (deliver rq st ev)) = next_handler (snd st)"
  "sends (trace (snd (deliver rq st ev))) = sends (trace (snd st))"
  "sleeps (trace (snd (deliver rq st ev))) = sleeps (trace (snd st))"
  "waits (trace (snd (deliver rq st ev))) = waits (trace (snd st))"
  "started (trace (snd (deliver rq st ev))) = started (trace (snd st))"
  by (simp_all add: deliver_def)

lemma deliver_transcript:
  "set (transcript (snd (deliver rq st ev))) =
     (if chat_id ev = bot then set (transcript (snd st)) - {Inbound (message ev)}
      else insert (Inbound (message ev)) (set (transcript (snd st))))"
  by (simp add: deliver_def message_handler_transcript)

lemma deliver_fst:
  "fst (deliver rq st ev) = (case fst st of None \<Rightarrow> accepts rq ev | Some u \<Rightarrow> Some u)"
  by (simp add: deliver_def message_handler_fst)

lemma deliveries_fields [simp]:
  "cache (snd (foldl (deliver rq) st evs)) = cache (snd st)"
  "clock (snd (foldl (deliver rq) st evs)) = clock (snd st)"
  "handlers (snd (foldl (deliver rq) st evs)) = handlers (snd st)"
  "next_handler (snd (foldl (deliver rq) st evs)) = next_handler (snd st)"
  "sends (trace (snd (foldl (deliver rq) st evs))) = sends (trace (snd st))"
  "sleeps (trace (snd (foldl (deliver rq) st evs))) = sleeps (trace (snd st))"
  "waits (trace (snd (foldl (deliver rq) st evs))) = waits (trace (snd st))"
  "started (trace (snd (foldl (deliver rq) st evs))) = started (trace (snd st))"
  by (induction evs arbitrary: st; simp)+

lemma deliveries_transcript:
  "set (transcript (snd (foldl (deliver rq) st evs)))
     \<subseteq> set (transcript (snd st)) \<union> {Inbound (message ev) |ev. ev \<in> set evs \<and> chat_id ev \<noteq> bot}"
proof (induction evs arbitrary: st)
  case Nil
  then show ?case by simp
next
  case (Cons ev evs)
  have "set (transcript (snd (foldl (deliver rq) (deliver rq st ev) evs)))
     \<subseteq> set (transcript (snd (deliver rq st ev))) \<union> {Inbound (message e) |e. e \<in> set evs \<and> chat_id e \<noteq> bot}"
    using Cons.IH .
  then show ?case by (auto simp: deliver_transcript split: if_splits)
qed

lemma deliveries_fst:
  "fst (foldl (deliver rq) st evs) = (case fst st of None \<Rightarrow> reply rq evs | Some u \<Rightarrow> Some u)"
  by (induction evs arbitrary: st) (auto simp: deliver_fst split: option.splits)

lemma outer_except_fields [simp]:
  "cache (snd (outer_except rq x s)) = cache s"
  "transcript (snd (outer_except rq x s)) = transcript s"
  "handlers (snd (outer_except rq x s)) = handlers s"
  "next_handler (snd (outer_except rq x s)) = next_handler s"
  "sends (trace (snd (outer_except rq x s))) = sends (trace s)"
  "waits (trace (snd (outer_except rq x s))) = waits (trace s)"
  "started (trace (snd (outer_except rq x s))) = started (trace s)"
  by (simp_all add: outer_except_def sends_append waits_append started_append split: exn.splits)

lemma inner_except_fields [simp]:
  "cache (snd (inner_except rq r x ms h s)) = cache s"
  "set (transcript (snd (inner_except rq r x ms h s))) = set (transcript s) - set ms"
  "handlers (snd (inner_except rq r x ms h s)) = handlers s"
  "next_handler (snd (inner_except rq r x ms h s)) = next_handler s"
  "sends (trace (snd (inner_except rq r x ms h s))) = sends (trace s)"
  "waits (trace (snd (inner_except rq r x ms h s))) = waits (trace s)"
  "started (trace (snd (inner_except rq r x ms h s))) = started (trace s)"
  by (auto simp: inner_except_def Let_def sends_append waits_append started_append split: exn.splits)

lemma add_event_handler_fields [simp]:
  "fst (add_event_handler s) = next_handler s"
  "cache (snd (add_event_handler s)) = cache s"
  "clock (snd (add_event_handler s)) = clock s"
  "transcript (snd (add_event_handler s)) = transcript s"
  "handlers (snd (add_event_handler s)) = handlers s @ [next_handler s]"
  "next_handler (snd (add_event_handler s)) = Suc (next_handler s)"
  "trace (snd (add_event_handler s)) = trace s @ [AddEventHandler (next_handler s)]"
  by (simp_all add: add_event_handler_def)

lemma attempt_unfold:
  "attempt rq e r s =
     (let s1 = snd (add_event_handler (log Debug (MuteMsg (timeout rq)) s)); h = next_handler s in
      case send_result e of
        Inl x \<Rightarrow> inner_except rq r x [] h s1
      | Inr m \<Rightarrow>
          (let st = foldl (deliver rq) (None, sent rq m s1) (inbound e) in
           case fst st of
             None \<Rightarrow> inner_except rq r TimeoutError [Outbound m] h (waited (timeout rq) (snd st))
           | Some results \<Rightarrow>
               if reply_delay e < timeout rq then
                 (Done (Inr (Some results)),
                  cleanup [Outbound m] h
                    (if results \<noteq> [] \<and> map_of results ''status'' = Some ''ok''
                     then cache_set (cache_key rq) results 3600 (waited (reply_delay e) (snd st))
                     else waited (reply_delay e) (snd st)))
               else inner_except rq r TimeoutError [Outbound m] h (waited (timeout rq) (snd st))))"
  by (auto simp: attempt_def Let_def add_event_handler_def split: sum.splits prod.splits option.splits)

text \<open>
  Every attempt leaves its callback registered: \<^verbatim>\<open>remove_event_handler\<close> is called
  on every path, with \<^verbatim>\<open>None\<close>.
\<close>

lemma attempt_handlers:
  shows "handlers (snd (attempt rq e r s)) = handlers s @ [next_handler s]"
    and "next_handler (snd (attempt rq e r s)) = Suc (next_handler s)"
  by (auto simp: attempt_unfold Let_def split: sum.splits option.splits)

lemma attempt_transcript:
  "set (transcript (snd (attempt rq e r s)))
     \<subseteq> set (transcript s) \<union> {Inbound (message ev) |ev. ev \<in> set (inbound e) \<and> chat_id ev \<noteq> bot}"
proof (cases "send_result e")
  case (Inl x)
  then show ?thesis by (auto simp: attempt_unfold Let_def)
next
  case (Inr m)
  let ?s1 = "snd (add_event_handler (log Debug (MuteMsg (timeout rq)) s))"
  let ?st = "foldl (deliver rq) (None, sent rq m ?s1) (inbound e)"
  have d: "set (transcript (snd ?st))
     \<subseteq> insert (Outbound m) (set (transcript s)) \<union> {Inbound (message ev) |ev. ev \<in> set (inbound e) \<and> chat_id ev \<noteq> bot}"
    using deliveries_transcript[of rq "(None, sent rq m ?s1)" "inbound e"] by simp
  show ?thesis
  proof (cases "fst ?st")
    case None
    then show ?thesis using Inr d by (auto simp: attempt_unfold Let_def)
  next
    case (Some res)
    then show ?thesis using Inr d by (auto simp: attempt_unfold Let_def)
  qed
qed

lemma outer_except_fst:
  "fst (outer_except rq x s) =
     (case x of
        FloodWaitError secs \<Rightarrow> Continue
      | _ \<Rightarrow> if fail rq then Done (Inl (LinkError (str x))) else Done (Inr None))"
  by (simp add: outer_except_def split: exn.splits)

lemma outer_except_clock:
  "clock (snd (outer_except rq x s)) =
     (case x of FloodWaitError secs \<Rightarrow> clock s + secs | _ \<Rightarrow> clock s)"
  "sleeps (trace (snd (outer_except rq x s))) =
     (case x of FloodWaitError secs \<Rightarrow> sleeps (trace s) @ [secs] | _ \<Rightarrow> sleeps (trace s))"
  by (simp_all add: outer_except_def sleeps_append split: exn.splits)

lemma inner_except_fst:
  "fst (inner_except rq r x ms h s) =
     (case x of
        TimeoutError \<Rightarrow>
          (if r + 1 < retries rq then Continue
           else if fail rq then Done (Inl (LinkError (TimeoutMsg (name rq) (r + 1) (retries rq))))
           else Done (Inr None))
      | UserBlockedError \<Rightarrow>
          (if fail rq then Done (Inl (LinkError BlockedMsg)) else Done (Inr None))
      | FloodWaitError secs \<Rightarrow> Continue
      | _ \<Rightarrow> if fail rq then Done (Inl (LinkError (str x))) else Done (Inr None))"
  by (simp add: inner_except_def outer_except_fst Let_def split: exn.splits)

lemma inner_except_clock:
  "clock (snd (inner_except rq r x ms h s)) =
     (case x of
        TimeoutError \<Rightarrow> (if r + 1 < retries rq then clock s + 3 else clock s)
      | FloodWaitError secs \<Rightarrow> clock s + secs
      | _ \<Rightarrow> clock s)"
  "sleeps (trace (snd (inner_except rq r x ms h s))) =
     (case x of
        TimeoutError \<Rightarrow> (if r + 1 < retries rq then sleeps (trace s) @ [3] else sleeps (trace s))
      | FloodWaitError secs \<Rightarrow> sleeps (trace s) @ [secs]
      | _ \<Rightarrow> sleeps (trace s))"
  by (simp_all add: inner_except_def outer_except_clock Let_def sleeps_append split: exn.splits)


lemma attempt_started: "started (trace (snd (attempt rq e r s))) = Suc (started (trace s))"
  by (simp add: attempt_unfold Let_def started_append split: sum.splits option.splits)

lemma attempt_sends:
  "sends (trace (snd (attempt rq e r s))) =
     (case send_result e of Inl x \<Rightarrow> sends (trace s) | Inr m \<Rightarrow> sends (trace s) @ [m])"
  by (simp add: attempt_unfold Let_def sends_append split: sum.splits option.splits)

lemma attempt_outbound_deleted:
  "send_result e = Inr m \<Longrightarrow> Outbound m \<notin> set (transcript (snd (attempt rq e r s)))"
  by (simp add: attempt_unfold Let_def split: option.splits)

lemma attempt_flood:
  assumes "send_result e = Inl (FloodWaitError w)"
  shows "fst (attempt rq e r s) = Continue"
    and "clock (snd (attempt rq e r s)) = clock s + w"
    and "sleeps (trace (snd (attempt rq e r s))) = sleeps (trace s) @ [w]"
    and "waits (trace (snd (attempt rq e r s))) = waits (trace s)"
  using assms
  by (simp_all add: attempt_unfold Let_def inner_except_fst inner_except_clock sleeps_append waits_append)

lemma attempt_blocked:
  assumes "send_result e = Inl UserBlockedError"
  shows "fst (attempt rq e r s) = (if fail rq then Done (Inl (LinkError BlockedMsg)) else Done (Inr None))"
    and "clock (snd (attempt rq e r s)) = clock s"
    and "sleeps (trace (snd (attempt rq e r s))) = sleeps (trace s)"
  using assms
  by (simp_all add: attempt_unfold Let_def inner_except_fst inner_except_clock sleeps_append)

lemma attempt_timeout:
  assumes "send_result e = Inr m" and "reply rq (inbound e) = None"
  shows "fst (attempt rq e r s) =
           (if r + 1 < retries rq then Continue
            else if fail rq then Done (Inl (LinkError (TimeoutMsg (name rq) (r + 1) (retries rq))))
            else Done (Inr None))"
    and "clock (snd (attempt rq e r s)) = clock s + timeout rq + (if r + 1 < retries rq then 3 else 0)"
    and "sleeps (trace (snd (attempt rq e r s))) =
           sleeps (trace s) @ (if r + 1 < retries rq then [3] else [])"
    and "waits (trace (snd (attempt rq e r s))) = waits (trace s) @ [timeout rq]"
  using assms
  by (simp_all add: attempt_unfold Let_def deliveries_fst inner_except_fst inner_except_clock
      sleeps_append waits_append)


lemma attempts_Cons:
  "attempts rq env (r # rs) s =
     (case fst (attempt rq (env r) r s) of
        Continue \<Rightarrow> attempts rq env rs (snd (attempt rq (env r) r s))
      | Done res \<Rightarrow> (res, snd (attempt rq (env r) r s)))"
  by (cases "attempt rq (env r) r s") (auto split: step.splits)

declare attempts.simps(2) [simp del]

lemma attempts_continue:
  "fst (attempt rq (env r) r s) = Continue \<Longrightarrow>
   attempts rq env (r # rs) s = attempts rq env rs (snd (attempt rq (env r) r s))"
  by (simp add: attempts_Cons)

lemma attempts_done:
  "fst (attempt rq (env r) r s) = Done res \<Longrightarrow>
   attempts rq env (r # rs) s = (res, snd (attempt rq (env r) r s))"
  by (simp add: attempts_Cons)

lemma attempts_handlers:
  "handlers (snd (attempts rq env rs s)) =
     handlers s @ [next_handler s..<next_handler (snd (attempts rq env rs s))]
   \<and> next_handler s \<le> next_handler (snd (attempts rq env rs s))"
proof (induction rs arbitrary: s)
  case Nil
  then show ?case by simp
next
  case (Cons r rs)
  let ?s1 = "snd (attempt rq (env r) r s)"
  note a = attempt_handlers[of rq "env r" r s]
  note ih = Cons.IH[of ?s1]
  have u: "\<And>n. Suc (next_handler s) \<le> n \<Longrightarrow>
      [next_handler s..<n] = next_handler s # [Suc (next_handler s)..<n]"
    by (simp add: upt_conv_Cons)
  show ?case
  proof (cases "fst (attempt rq (env r) r s)")
    case Continue
    show ?thesis
      unfolding attempts_continue[of rq env r s, OF Continue]
      using ih a u[of "next_handler (snd (attempts rq env rs ?s1))"] by simp
  next
    case (Done res)
    show ?thesis
      unfolding attempts_done[of rq env r s, OF Done]
      using a by simp
  qed
qed

lemma attempts_transcript:
  "set (transcript (snd (attempts rq env rs s)))
     \<subseteq> set (transcript s) \<union>
        {Inbound (message ev) |r ev. r \<in> set rs \<and> ev \<in> set (inbound (env r)) \<and> chat_id ev \<noteq> bot}"
proof (induction rs arbitrary: s)
  case Nil
  then show ?case by simp
next
  case (Cons r rs)
  let ?s1 = "snd (attempt rq (env r) r s)"
  let ?A = "{Inbound (message ev) |ev. ev \<in> set (inbound (env r)) \<and> chat_id ev \<noteq> bot}"
  let ?B = "{Inbound (message ev) |r ev. r \<in> set rs \<and> ev \<in> set (inbound (env r)) \<and> chat_id ev \<noteq> bot}"
  let ?C = "{Inbound (message ev) |q ev. q \<in> set (r # rs) \<and> ev \<in> set (inbound (env q)) \<and> chat_id ev \<noteq> bot}"
  have a: "set (transcript ?s1) \<subseteq> set (transcript s) \<union> ?A"
    by (rule attempt_transcript)
  have ih: "set (transcript (snd (attempts rq env rs ?s1))) \<subseteq> set (transcript ?s1) \<union> ?B"
    by (rule Cons.IH)
  have ac: "?A \<subseteq> ?C" by fastforce
  have bc: "?B \<subseteq> ?C" by fastforce
  show ?case
  proof (cases "fst (attempt rq (env r) r s)")
    case Continue
    have "set (transcript (snd (attempts rq env (r # rs) s))) \<subseteq> set (transcript ?s1) \<union> ?B"
      using ih by (simp only: attempts_continue[of rq env r s, OF Continue])
    then show ?thesis using a ac bc by blast
  next
    case (Done res)
    have "set (transcript (snd (attempts rq env (r # rs) s))) = set (transcript ?s1)"
      by (simp add: attempts_done[of rq env r s, OF Done])
    then show ?thesis using a ac by blast
  qed
qed

lemma attempts_started:
  "started (trace (snd (attempts rq env rs s))) \<le> started (trace s) + length rs"
proof (induction rs arbitrary: s)
  case Nil
  then show ?case by simp
next
  case (Cons r rs)
  show ?case
    using Cons.IH[of "snd (attempt rq (env r) r s)"] attempt_started[of rq "env r" r s]
    by (simp add: attempts_Cons split: step.splits)
qed


lemma attempts_all_timeout:
  assumes "k < n" and "n = retries rq"
    and "\<forall>r. k \<le> r \<and> r < n \<longrightarrow> send_result (env r) = Inr (m r) \<and> reply rq (inbound (env r)) = None"
  shows "fst (attempts rq env [k..<n] s) =
           (if fail rq then Inl (LinkError (TimeoutMsg (name rq) n n)) else Inr None)
       \<and> clock (snd (attempts rq env [k..<n] s)) = clock s + (n - k) * timeout rq + 3 * (n - k - 1)
       \<and> sleeps (trace (snd (attempts rq env [k..<n] s))) = sleeps (trace s) @ replicate (n - k - 1) 3
       \<and> waits (trace (snd (attempts rq env [k..<n] s))) = waits (trace s) @ replicate (n - k) (timeout rq)
       \<and> sends (trace (snd (attempts rq env [k..<n] s))) = sends (trace s) @ map m [k..<n]"
  using assms
proof (induction "n - k" arbitrary: k s)
  case 0
  then show ?case by simp
next
  case (Suc d)
  let ?s1 = "snd (attempt rq (env k) k s)"
  have u: "[k..<n] = k # [Suc k..<n]" using Suc.prems(1) by (simp add: upt_conv_Cons)
  have e: "send_result (env k) = Inr (m k)" "reply rq (inbound (env k)) = None"
    using Suc.prems by auto
  note t = attempt_timeout[OF e, of k s]
  have sn: "sends (trace ?s1) = sends (trace s) @ [m k]"
    using attempt_sends[of rq "env k" k s] e by simp
  show ?case
  proof (cases "Suc k < n")
    case True
    have d: "d = n - Suc k" using Suc.hyps(2) by simp
    have h: "\<forall>r. Suc k \<le> r \<and> r < n \<longrightarrow> send_result (env r) = Inr (m r) \<and> reply rq (inbound (env r)) = None"
      using Suc.prems(3) by simp
    note ih = Suc.hyps(1)[OF d True Suc.prems(2) h, of ?s1]
    have c: "fst (attempt rq (env k) k s) = Continue" using t(1) True Suc.prems(2) by simp
    have eq: "attempts rq env [k..<n] s = attempts rq env [Suc k..<n] ?s1"
      unfolding u by (rule attempts_continue[of rq env k s, OF c])
    have c1: "clock ?s1 = clock s + timeout rq + 3" using t(2) True Suc.prems(2) by simp
    have c2: "sleeps (trace ?s1) = sleeps (trace s) @ [3]" using t(3) True Suc.prems(2) by simp
    have c3: "waits (trace ?s1) = waits (trace s) @ [timeout rq]" using t(4) by simp
    have r1: "replicate (n - k - 1) (3::nat) = 3 # replicate (n - Suc k - 1) 3"
      using True by (cases "n - k - 1") auto
    have r2: "replicate (n - k) (timeout rq) = timeout rq # replicate (n - Suc k) (timeout rq)"
      using True by (cases "n - k") auto
    have ar: "(n - k) * timeout rq = timeout rq + (n - Suc k) * timeout rq"
      using True by (cases "n - k") auto
    have ar2: "3 * (n - k - 1) = 3 + 3 * (n - Suc k - 1)" using True by simp
    have g1: "fst (attempts rq env [k..<n] s) =
           (if fail rq then Inl (LinkError (TimeoutMsg (name rq) n n)) else Inr None)"
      using ih by (simp only: eq)
    have g2: "clock (snd (attempts rq env [k..<n] s)) = clock s + (n - k) * timeout rq + 3 * (n - k - 1)"
    proof -
      have "clock (snd (attempts rq env [Suc k..<n] ?s1)) =
              clock ?s1 + (n - Suc k) * timeout rq + 3 * (n - Suc k - 1)"
        using ih by blast
      then show ?thesis unfolding eq c1 using ar ar2 by linarith
    qed
    have g3: "sleeps (trace (snd (attempts rq env [k..<n] s))) = sleeps (trace s) @ replicate (n - k - 1) 3"
    proof -
      have "sleeps (trace (snd (attempts rq env [Suc k..<n] ?s1))) =
              sleeps (trace ?s1) @ replicate (n - Suc k - 1) 3"
        using ih by blast
      then show ?thesis unfolding eq c2 r1 by simp
    qed
    have g4: "waits (trace (snd (attempts rq env [k..<n] s))) = waits (trace s) @ replicate (n - k) (timeout rq)"
    proof -
      have "waits (trace (snd (attempts rq env [Suc k..<n] ?s1))) =
              waits (trace ?s1) @ replicate (n - Suc k) (timeout rq)"
        using ih by blast
      then show ?thesis unfolding eq c3 r2 by simp
    qed
    have g5: "sends (trace (snd (attempts rq env [k..<n] s))) = sends (trace s) @ map m [k..<n]"
    proof -
      have "sends (trace (snd (attempts rq env [k..<n] s))) = sends (trace ?s1) @ map m [Suc k..<n]"
        using ih by (simp only: eq)
      also have "\<dots> = sends (trace s) @ (m k # map m [Suc k..<n])" by (simp only: sn) simp
      also have "m k # map m [Suc k..<n] = map m [k..<n]" using arg_cong[OF u, of "map m"] by simp
      finally show ?thesis .
    qed
    show ?thesis using g1 g2 g3 g4 g5 by blast
  next
    case False
    then have nk: "n = Suc k" using Suc.prems(1) by simp
    have c: "fst (attempt rq (env k) k s) =
        Done (if fail rq then Inl (LinkError (TimeoutMsg (name rq) n n)) else Inr None)"
      using t(1) nk Suc.prems(2) by simp
    have eq: "attempts rq env [k..<n] s =
        (if fail rq then Inl (LinkError (TimeoutMsg (name rq) n n)) else Inr None, ?s1)"
      unfolding u by (rule attempts_done[of rq env k s, OF c])
    have c1: "clock ?s1 = clock s + timeout rq" using t(2) nk Suc.prems(2) by simp
    have c2: "sleeps (trace ?s1) = sleeps (trace s)" using t(3) nk Suc.prems(2) by simp
    have c3: "waits (trace ?s1) = waits (trace s) @ [timeout rq]" using t(4) by simp
    have m1: "map m [k..<n] = [m k]" using nk by simp
    show ?thesis
      unfolding eq using c1 c2 c3 sn m1 nk by simp
  qed
qed

lemma start_state_miss: "cache_get start_state (cache_key example_request) = None"
  by (simp add: cache_get_def start_state_def)

lemma post_miss: "cache_get s (cache_key rq) = None \<Longrightarrow> post rq env s = attempts rq env [0..<retries rq] s"
  by (simp add: post_def)

lemma example_retries: "retries example_request = 3" "timeout example_request = 20"
  "fail example_request = False" "name example_request = ''auth''"
  by (simp_all add: example_request_def)

lemma upt3: "[0..<3] = 0 # [1..<3]"
  by (simp add: upt_conv_Cons)

lemma flood_run:
  "post example_request env_flood_first start_state =
     attempts example_request env_flood_first [1..<3]
       (snd (attempt example_request (env_flood_first 0) 0 start_state))"
proof -
  have f: "send_result (env_flood_first 0) = Inl (FloodWaitError 5)"
    by (simp add: env_flood_first_def)
  have c: "fst (attempt example_request (env_flood_first 0) 0 start_state) = Continue"
    by (rule attempt_flood(1)[OF f])
  show ?thesis
    unfolding post_miss[OF start_state_miss] example_retries upt3
    by (rule attempts_continue[of example_request env_flood_first 0 start_state, OF c])
qed

lemma flood_run_rest:
  "fst (attempts example_request env_flood_first [1..<3] s) = Inr None
   \<and> sleeps (trace (snd (attempts example_request env_flood_first [1..<3] s))) = sleeps (trace s) @ [3]
   \<and> waits (trace (snd (attempts example_request env_flood_first [1..<3] s))) = waits (trace s) @ [20, 20]
   \<and> sends (trace (snd (attempts example_request env_flood_first [1..<3] s))) = sends (trace s) @ [101, 102]"
proof -
  have h: "\<forall>r. 1 \<le> r \<and> r < 3 \<longrightarrow>
             send_result (env_flood_first r) = Inr (100 + r) \<and>
             reply example_request (inbound (env_flood_first r)) = None"
    by (simp add: env_flood_first_def env_timeouts_def)
  have m: "map (\<lambda>r. 100 + r) [1..<3] = [101, 102::nat]"
    by (simp add: upt_conv_Cons)
  have r1: "replicate (3 - 1 - 1) (3::nat) = [3]" by simp
  have r2: "replicate (3 - 1) (20::nat) = [20, 20]" by (simp add: numeral_2_eq_2)
  have lt: "(1::nat) < 3" by simp
  have eq: "3 = retries example_request" by (simp add: example_retries)
  note t = attempts_all_timeout[of 1 3 example_request env_flood_first "\<lambda>r. 100 + r" s, OF lt eq h]
  show ?thesis
    using t unfolding m r1 by (simp add: example_retries numeral_2_eq_2)
qed

text \<open>
  Claim C3, as stated, fails. With three retries, a rate limit of five seconds on the
  first attempt and no answer afterwards, the operation sleeps five seconds, makes two
  more attempts that time out (two waits, one pause of three seconds between them) and
  returns the empty result: the rate-limited attempt took one of the three iterations.
\<close>

theorem flood_wait_uses_a_slot:
  "fst (post example_request env_flood_first start_state) = Inr None
   \<and> retries example_request = 3
   \<and> sleeps (trace (snd (post example_request env_flood_first start_state))) = [5, 3]
   \<and> waits (trace (snd (post example_request env_flood_first start_state))) = [20, 20]
   \<and> sends (trace (snd (post example_request env_flood_first start_state))) = [101, 102]"
proof -
  let ?s1 = "snd (attempt example_request (env_flood_first 0) 0 start_state)"
  have f: "send_result (env_flood_first 0) = Inl (FloodWaitError 5)"
    by (simp add: env_flood_first_def)
  have a: "sleeps (trace ?s1) = [5]" "waits (trace ?s1) = []"
    using attempt_flood(3,4)[OF f, of example_request 0 start_state]
    by (simp_all add: start_state_def)
  have b: "sends (trace ?s1) = []"
    using attempt_sends[of example_request "env_flood_first 0" 0 start_state] f
    by (simp add: start_state_def)
  show ?thesis
    unfolding flood_run using flood_run_rest[of ?s1] a b
    by (simp add: example_retries)
qed

lemma post_started: "started (trace (snd (post rq env s))) \<le> started (trace s) + retries rq"
  using attempts_started[of rq env "[0..<retries rq]" s]
  by (simp add: post_def split: option.splits)

text \<open>
  Claim C3, amended. When the sending of iteration \<open>r\<close> raises a rate limit of \<open>w\<close>
  seconds, the iteration sleeps exactly \<open>w\<close> seconds, sends nothing, and the loop goes
  on with the iterations that are left; the rate-limited iteration counts as one of
  the \<^verbatim>\<open>retries\<close> iterations, so that the operation begins at most
  \<^verbatim>\<open>retries\<close> attempts in all.
\<close>

theorem flood_wait_continues:
  assumes "send_result (env r) = Inl (FloodWaitError w)"
  shows "fst (attempt rq (env r) r s) = Continue
       \<and> clock (snd (attempt rq (env r) r s)) = clock s + w
       \<and> sleeps (trace (snd (attempt rq (env r) r s))) = sleeps (trace s) @ [w]
       \<and> sends (trace (snd (attempt rq (env r) r s))) = sends (trace s)
       \<and> attempts rq env (r # rs) s = attempts rq env rs (snd (attempt rq (env r) r s))
       \<and> started (trace (snd (post rq env s))) \<le> started (trace s) + retries rq"
proof -
  note a = attempt_flood[OF assms, of rq r s]
  have b: "sends (trace (snd (attempt rq (env r) r s))) = sends (trace s)"
    using attempt_sends[of rq "env r" r s] assms by simp
  have c: "attempts rq env (r # rs) s = attempts rq env rs (snd (attempt rq (env r) r s))"
    by (rule attempts_continue[of rq env r s, OF a(1)])
  show ?thesis using a b c post_started by blast
qed

text \<open>The rate limit of five seconds on the first attempt of the example.\<close>

theorem flood_wait_continues_witness:
  "fst (attempt example_request (env_flood_first 0) 0 start_state) = Continue
   \<and> clock (snd (attempt example_request (env_flood_first 0) 0 start_state)) = 1005
   \<and> sleeps (trace (snd (attempt example_request (env_flood_first 0) 0 start_state))) = [5]
   \<and> started (trace (snd (post example_request env_flood_first start_state))) \<le> 3"
proof -
  have f: "send_result (env_flood_first 0) = Inl (FloodWaitError 5)"
    by (simp add: env_flood_first_def)
  show ?thesis
    using flood_wait_continues[of env_flood_first 0 5 example_request start_state "[]", OF f]
    by (simp add: start_state_def example_retries)
qed

lemma attempt_blocked_trace:
  assumes "send_result e = Inl UserBlockedError"
  shows "trace (snd (attempt rq e r s)) =
           trace s @
             (if fail rq
              then [Log Debug (MuteMsg (timeout rq)), AddEventHandler (next_handler s),
                    RemoveEventHandler (next_handler s), Log Error (RequestError BlockedMsg)]
              else [Log Debug (MuteMsg (timeout rq)), AddEventHandler (next_handler s),
                    Log Error BlockedMsg, RemoveEventHandler (next_handler s)])"
  using assms
  by (simp add: attempt_unfold Let_def inner_except_def outer_except_def)

text \<open>
  Claim C9. When the sending raises \<^verbatim>\<open>UserBlockedError\<close>, the loop ends at that
  iteration whatever iterations are left: with \<^verbatim>\<open>fail\<close> a \<^verbatim>\<open>LinkError\<close> with
  the blocked-peer message is raised, otherwise that message is logged as an error and
  the empty result is returned. Nothing is sent and nothing is slept.
\<close>

theorem blocked_peer_is_terminal:
  assumes "send_result (env r) = Inl UserBlockedError"
  shows "attempts rq env (r # rs) s =
           (if fail rq then Inl (LinkError BlockedMsg) else Inr None, snd (attempt rq (env r) r s))
       \<and> trace (snd (attempt rq (env r) r s)) =
           trace s @
             (if fail rq
              then [Log Debug (MuteMsg (timeout rq)), AddEventHandler (next_handler s),
                    RemoveEventHandler (next_handler s), Log Error (RequestError BlockedMsg)]
              else [Log Debug (MuteMsg (timeout rq)), AddEventHandler (next_handler s),
                    Log Error BlockedMsg, RemoveEventHandler (next_handler s)])
       \<and> clock (snd (attempt rq (env r) r s)) = clock s"
proof -
  note a = attempt_blocked[OF assms, of rq r s]
  have d: "fst (attempt rq (env r) r s) =
      Done (if fail rq then Inl (LinkError BlockedMsg) else Inr None)"
    using a(1) by simp
  note c = attempts_done[of rq env r s, OF d]
  show ?thesis using c a(2) attempt_blocked_trace[OF assms] by simp
qed

text \<open>The blocked peer: of three iterations only the first one runs.\<close>

theorem blocked_peer_is_terminal_witness:
  "post example_request env_blocked start_state =
     (Inr None, snd (attempt example_request (env_blocked 0) 0 start_state))
   \<and> trace (snd (attempt example_request (env_blocked 0) 0 start_state)) =
       [Log Debug (MuteMsg 20), AddEventHandler 0, Log Error BlockedMsg, RemoveEventHandler 0]"
proof -
  have f: "send_result (env_blocked 0) = Inl UserBlockedError"
    by (simp add: env_blocked_def)
  have p: "post example_request env_blocked start_state =
             attempts example_request env_blocked (0 # [1..<3]) start_state"
    unfolding post_miss[OF start_state_miss] example_retries upt3 by (rule refl)
  show ?thesis
    unfolding p
    using blocked_peer_is_terminal[of env_blocked 0 example_request "[1..<3]" start_state, OF f]
    by (simp add: example_retries start_state_def)
qed

lemma attempt_unanswered:
  assumes "send_result e = Inr m" and "unanswered rq e"
  shows "fst (attempt rq e r s) =
           (if r + 1 < retries rq then Continue
            else if fail rq then Done (Inl (LinkError (TimeoutMsg (name rq) (r + 1) (retries rq))))
            else Done (Inr None))"
    and "clock (snd (attempt rq e r s)) = clock s + timeout rq + (if r + 1 < retries rq then 3 else 0)"
    and "sleeps (trace (snd (attempt rq e r s))) =
           sleeps (trace s) @ (if r + 1 < retries rq then [3] else [])"
    and "waits (trace (snd (attempt rq e r s))) = waits (trace s) @ [timeout rq]"
proof -
  let ?s1 = "snd (add_event_handler (log Debug (MuteMsg (timeout rq)) s))"
  let ?st = "foldl (deliver rq) (None, sent rq m ?s1) (inbound e)"
  have a: "attempt rq e r s =
      inner_except rq r TimeoutError [Outbound m] (next_handler s) (waited (timeout rq) (snd ?st))"
  proof (cases "fst ?st")
    case None
    then show ?thesis using assms(1) by (simp add: attempt_unfold Let_def)
  next
    case (Some v)
    then have "reply rq (inbound e) = Some v" by (simp add: deliveries_fst)
    then have "\<not> reply_delay e < timeout rq" using assms(2) by (simp add: unanswered_def)
    then show ?thesis using assms(1) Some by (simp add: attempt_unfold Let_def)
  qed
  show "fst (attempt rq e r s) =
           (if r + 1 < retries rq then Continue
            else if fail rq then Done (Inl (LinkError (TimeoutMsg (name rq) (r + 1) (retries rq))))
            else Done (Inr None))"
    unfolding a by (simp add: inner_except_fst)
  show "clock (snd (attempt rq e r s)) = clock s + timeout rq + (if r + 1 < retries rq then 3 else 0)"
    unfolding a by (simp add: inner_except_clock)
  show "sleeps (trace (snd (attempt rq e r s))) =
           sleeps (trace s) @ (if r + 1 < retries rq then [3] else [])"
    unfolding a by (simp add: inner_except_clock sleeps_append)
  show "waits (trace (snd (attempt rq e r s))) = waits (trace s) @ [timeout rq]"
    unfolding a by (simp add: waits_append)
qed

lemma sent_iterations_Cons:
  "sent_iterations env (r # rs) =
     (case send_result (env r) of Inl x \<Rightarrow> sent_iterations env rs | Inr m \<Rightarrow> r # sent_iterations env rs)"
  by (simp add: sent_iterations_def split: sum.splits)

lemma attempts_run_out:
  assumes "k < n" and "n = retries rq"
    and "\<forall>r. k \<le> r \<and> r < n \<longrightarrow>
           (case send_result (env r) of
              Inl (FloodWaitError w) \<Rightarrow> r + 1 < n
            | Inl _ \<Rightarrow> False
            | Inr m \<Rightarrow> unanswered rq (env r))"
  shows "fst (attempts rq env [k..<n] s) =
           (if fail rq then Inl (LinkError (TimeoutMsg (name rq) n n)) else Inr None)
       \<and> clock (snd (attempts rq env [k..<n] s)) =
           clock s + sum_list (map (iteration_time rq env) [k..<n])
       \<and> waits (trace (snd (attempts rq env [k..<n] s))) =
           waits (trace s) @ replicate (length (sent_iterations env [k..<n])) (timeout rq)"
  using assms
proof (induction "n - k" arbitrary: k s)
  case 0
  then show ?case by simp
next
  case (Suc d)
  let ?s1 = "snd (attempt rq (env k) k s)"
  have u: "[k..<n] = k # [Suc k..<n]" using Suc.prems(1) by (simp add: upt_conv_Cons)
  have hk: "case send_result (env k) of
              Inl (FloodWaitError w) \<Rightarrow> k + 1 < n
            | Inl _ \<Rightarrow> False
            | Inr m \<Rightarrow> unanswered rq (env k)"
    using Suc.prems(1,3) by simp
  have h: "\<forall>r. Suc k \<le> r \<and> r < n \<longrightarrow>
           (case send_result (env r) of
              Inl (FloodWaitError w) \<Rightarrow> r + 1 < n
            | Inl _ \<Rightarrow> False
            | Inr m \<Rightarrow> unanswered rq (env r))"
    using Suc.prems(3) by simp
  show ?case
  proof (cases "send_result (env k)")
    case (Inl x)
    then obtain w where x: "x = FloodWaitError w" and lt: "Suc k < n"
      using hk by (cases x) auto
    have f: "send_result (env k) = Inl (FloodWaitError w)" using Inl x by simp
    note t = attempt_flood[OF f, of rq k s]
    have d: "d = n - Suc k" using Suc.hyps(2) by simp
    note ih = Suc.hyps(1)[OF d lt Suc.prems(2) h, of ?s1]
    have eq: "attempts rq env [k..<n] s = attempts rq env [Suc k..<n] ?s1"
      unfolding u by (rule attempts_continue[of rq env k s, OF t(1)])
    have it: "iteration_time rq env k = w" using f by (simp add: iteration_time_def)
    have si: "sent_iterations env [k..<n] = sent_iterations env [Suc k..<n]"
      unfolding u using f by (simp add: sent_iterations_Cons)
    have sm: "sum_list (map (iteration_time rq env) [k..<n]) =
        w + sum_list (map (iteration_time rq env) [Suc k..<n])"
      unfolding u using it by simp
    show ?thesis
      unfolding eq si sm using ih t(2) t(4) by simp
  next
    case (Inr m)
    then have un: "unanswered rq (env k)" using hk by simp
    note t = attempt_unanswered[OF Inr un, of k s]
    have si: "sent_iterations env [k..<n] = k # sent_iterations env [Suc k..<n]"
      unfolding u using Inr by (simp add: sent_iterations_Cons)
    have it: "iteration_time rq env k = timeout rq + (if k + 1 < n then 3 else 0)"
      using Inr Suc.prems(2) by (simp add: iteration_time_def)
    have sm: "sum_list (map (iteration_time rq env) [k..<n]) =
        timeout rq + (if k + 1 < n then 3 else 0) + sum_list (map (iteration_time rq env) [Suc k..<n])"
      unfolding u using it by simp
    show ?thesis
    proof (cases "Suc k < n")
      case True
      have d: "d = n - Suc k" using Suc.hyps(2) by simp
      note ih = Suc.hyps(1)[OF d True Suc.prems(2) h, of ?s1]
      have c: "fst (attempt rq (env k) k s) = Continue" using t(1) True Suc.prems(2) by simp
      have eq: "attempts rq env [k..<n] s = attempts rq env [Suc k..<n] ?s1"
        unfolding u by (rule attempts_continue[of rq env k s, OF c])
      have c1: "clock ?s1 = clock s + timeout rq + 3" using t(2) True Suc.prems(2) by simp
      show ?thesis
        unfolding eq si sm using ih c1 t(4) True by simp
    next
      case False
      then have nk: "n = Suc k" using Suc.prems(1) by simp
      have c: "fst (attempt rq (env k) k s) =
          Done (if fail rq then Inl (LinkError (TimeoutMsg (name rq) n n)) else Inr None)"
        using t(1) nk Suc.prems(2) by simp
      have eq: "attempts rq env [k..<n] s =
          (if fail rq then Inl (LinkError (TimeoutMsg (name rq) n n)) else Inr None, ?s1)"
        unfolding u by (rule attempts_done[of rq env k s, OF c])
      have c1: "clock ?s1 = clock s + timeout rq" using t(2) nk Suc.prems(2) by simp
      have e1: "[Suc k..<n] = []" using nk by simp
      show ?thesis
        unfolding eq si sm e1 using c1 t(4) nk by (simp add: sent_iterations_def)
    qed
  qed
qed

lemma all_sent_time:
  assumes "\<forall>r < n. \<exists>m. send_result (env r) = Inr m" and "k \<le> n" and "n = retries rq"
  shows "sum_list (map (iteration_time rq env) [0..<k]) = k * timeout rq + 3 * min k (n - 1)"
  using assms(2)
proof (induction k)
  case 0
  then show ?case by simp
next
  case (Suc k)
  then have k: "k < n" by simp
  obtain m where m: "send_result (env k) = Inr m" using assms(1) k by blast
  have it: "iteration_time rq env k = timeout rq + (if k + 1 < n then 3 else 0)"
    using m assms(3) by (simp add: iteration_time_def)
  have ih: "sum_list (map (iteration_time rq env) [0..<k]) = k * timeout rq + 3 * min k (n - 1)"
    using Suc by simp
  show ?case using ih it k by (auto simp: min_def)
qed

lemma all_sent_iterations:
  assumes "\<forall>r < n. \<exists>m. send_result (env r) = Inr m" and "k \<le> n"
  shows "sent_iterations env [0..<k] = [0..<k]"
  using assms(2)
proof (induction k)
  case 0
  then show ?case by (simp add: sent_iterations_def)
next
  case (Suc k)
  then have k: "k < n" by simp
  obtain m where m: "send_result (env k) = Inr m" using assms(1) k by blast
  show ?case using Suc m by (simp add: sent_iterations_def)
qed

lemma runs_out_iff:
  "runs_out rq env =
     (\<forall>r. 0 \<le> r \<and> r < retries rq \<longrightarrow>
           (case send_result (env r) of
              Inl (FloodWaitError w) \<Rightarrow> r + 1 < retries rq
            | Inl _ \<Rightarrow> False
            | Inr m \<Rightarrow> unanswered rq (env r)))"
  by (auto simp: runs_out_def list_all_iff)


lemma example_fail_fields:
  "retries example_request_fail = 3" "timeout example_request_fail = 20"
  "fail example_request_fail = True" "name example_request_fail = ''auth''"
  "cache_key example_request_fail = cache_key example_request"
  by (simp_all add: example_request_fail_def example_request_def cache_key_def)

lemma flood_first_runs_out_fail: "runs_out example_request_fail env_flood_first"
  by (simp add: runs_out_def example_fail_fields upt_conv_Cons env_flood_first_def
      env_timeouts_def unanswered_def)

lemma flood_first_runs_out: "runs_out example_request env_flood_first"
  by (simp add: runs_out_def example_retries upt_conv_Cons env_flood_first_def
      env_timeouts_def unanswered_def)

lemma flood_first_time:
  "sum_list (map (iteration_time example_request_fail env_flood_first) [0..<3]) = 48"
  "sum_list (map (iteration_time example_request env_flood_first) [0..<3]) = 48"
  "length (sent_iterations env_flood_first [0..<3]) = 2"
  by (simp_all add: upt_conv_Cons iteration_time_def example_fail_fields example_retries
      env_flood_first_def env_timeouts_def sent_iterations_def)

text \<open>
  Claim C6, as stated, fails. With three retries of twenty seconds, a rate limit of five
  seconds on the first iteration and no answer afterwards, the operation raises the
  timeout error \<open>(3/3)\<close> after two attempts have timed out, 48 seconds after its start;
  three timeouts and two pauses would take 66 seconds.
\<close>

theorem timeout_outcome_after_two_timeouts:
  "fst (post example_request_fail env_flood_first start_state) =
     Inl (LinkError (TimeoutMsg ''auth'' 3 3))
   \<and> waits (trace (snd (post example_request_fail env_flood_first start_state))) = [20, 20]
   \<and> clock (snd (post example_request_fail env_flood_first start_state)) = clock start_state + 48
   \<and> retries example_request_fail * timeout example_request_fail
       + 3 * (retries example_request_fail - 1) = 66"
proof -
  have m: "cache_get start_state (cache_key example_request_fail) = None"
    using start_state_miss by (simp add: example_fail_fields)
  have lt: "0 < retries example_request_fail" by (simp add: example_fail_fields)
  have h: "\<forall>r. 0 \<le> r \<and> r < retries example_request_fail \<longrightarrow>
           (case send_result (env_flood_first r) of
              Inl (FloodWaitError w) \<Rightarrow> r + 1 < retries example_request_fail
            | Inl _ \<Rightarrow> False
            | Inr m \<Rightarrow> unanswered example_request_fail (env_flood_first r))"
    using flood_first_runs_out_fail by (simp add: runs_out_iff)
  note t = attempts_run_out[of 0 "retries example_request_fail" example_request_fail
      env_flood_first start_state, OF lt refl h]
  have p: "post example_request_fail env_flood_first start_state =
      attempts example_request_fail env_flood_first [0..<retries example_request_fail] start_state"
    by (rule post_miss[OF m])
  have w0: "waits (trace start_state) = []" by (simp add: start_state_def)
  have r2: "replicate 2 (20::nat) = [20, 20]" by (simp add: numeral_2_eq_2)
  show ?thesis
    unfolding p using t w0 by (simp add: flood_first_time example_fail_fields r2)
qed

text \<open>
  Claim C6, amended. An attempt that is sent and gets no reply in time waits the whole
  timeout; its message is deleted; when iterations of the loop are left, the operation
  sleeps three seconds and goes on, and otherwise, at the last of the \<^verbatim>\<open>retries\<close>
  iterations, it ends with the timeout outcome: the error is raised with \<^verbatim>\<open>fail\<close>,
  and the empty result is returned without. When the cache has no entry, every iteration
  is rate-limited or times out, and the last one times out, the outcome is that of the
  last iteration, every attempt sent has waited the timeout, and the time passed is the
  sum of the times of the iterations: the wait demanded for a rate-limited one, the
  timeout and the pause for one that timed out. When every iteration was sent, this is
  \<^verbatim>\<open>retries\<close> timeouts and \<^verbatim>\<open>retries - 1\<close> pauses. No message sent is left in the
  chat.
\<close>

theorem timeout_after_last_iteration:
  assumes "0 < retries rq" and "cache_get s (cache_key rq) = None" and "runs_out rq env"
  shows "fst (post rq env s) =
           (if fail rq then Inl (LinkError (TimeoutMsg (name rq) (retries rq) (retries rq)))
            else Inr None)
       \<and> clock (snd (post rq env s)) =
           clock s + sum_list (map (iteration_time rq env) [0..<retries rq])
       \<and> waits (trace (snd (post rq env s))) =
           waits (trace s) @ replicate (length (sent_iterations env [0..<retries rq])) (timeout rq)
       \<and> ((\<forall>r < retries rq. \<exists>m. send_result (env r) = Inr m) \<longrightarrow>
             clock (snd (post rq env s)) = clock s + retries rq * timeout rq + 3 * (retries rq - 1)
           \<and> waits (trace (snd (post rq env s))) =
               waits (trace s) @ replicate (retries rq) (timeout rq))
       \<and> (\<forall>x. Outbound x \<in> set (transcript (snd (post rq env s))) \<longrightarrow>
                Outbound x \<in> set (transcript s))
       \<and> (send_result e = Inr m \<and> unanswered rq e \<longrightarrow>
             fst (attempt rq e r s') =
               (if r + 1 < retries rq then Continue
                else if fail rq
                then Done (Inl (LinkError (TimeoutMsg (name rq) (r + 1) (retries rq))))
                else Done (Inr None))
           \<and> clock (snd (attempt rq e r s')) =
               clock s' + timeout rq + (if r + 1 < retries rq then 3 else 0)
           \<and> sleeps (trace (snd (attempt rq e r s'))) =
               sleeps (trace s') @ (if r + 1 < retries rq then [3] else [])
           \<and> Outbound m \<notin> set (transcript (snd (attempt rq e r s'))))"
proof -
  have h: "\<forall>r. 0 \<le> r \<and> r < retries rq \<longrightarrow>
           (case send_result (env r) of
              Inl (FloodWaitError w) \<Rightarrow> r + 1 < retries rq
            | Inl _ \<Rightarrow> False
            | Inr m \<Rightarrow> unanswered rq (env r))"
    using assms(3) by (simp add: runs_out_iff)
  note t = attempts_run_out[of 0 "retries rq" rq env s, OF assms(1) refl h]
  have p: "post rq env s = attempts rq env [0..<retries rq] s" by (rule post_miss[OF assms(2)])
  have a: "fst (post rq env s) =
           (if fail rq then Inl (LinkError (TimeoutMsg (name rq) (retries rq) (retries rq)))
            else Inr None)"
    and b: "clock (snd (post rq env s)) =
           clock s + sum_list (map (iteration_time rq env) [0..<retries rq])"
    and c: "waits (trace (snd (post rq env s))) =
           waits (trace s) @ replicate (length (sent_iterations env [0..<retries rq])) (timeout rq)"
    unfolding p using t by blast+
  have d: "(\<forall>r < retries rq. \<exists>m. send_result (env r) = Inr m) \<longrightarrow>
             clock (snd (post rq env s)) = clock s + retries rq * timeout rq + 3 * (retries rq - 1)
           \<and> waits (trace (snd (post rq env s))) =
               waits (trace s) @ replicate (retries rq) (timeout rq)"
  proof
    assume al: "\<forall>r < retries rq. \<exists>m. send_result (env r) = Inr m"
    have "sum_list (map (iteration_time rq env) [0..<retries rq]) =
        retries rq * timeout rq + 3 * min (retries rq) (retries rq - 1)"
      by (rule all_sent_time[OF al _ refl]) simp
    moreover have "min (retries rq) (retries rq - 1) = retries rq - 1" by simp
    moreover have "sent_iterations env [0..<retries rq] = [0..<retries rq]"
      by (rule all_sent_iterations[OF al]) simp
    ultimately show "clock (snd (post rq env s)) = clock s + retries rq * timeout rq + 3 * (retries rq - 1)
           \<and> waits (trace (snd (post rq env s))) =
               waits (trace s) @ replicate (retries rq) (timeout rq)"
      using b c by simp
  qed
  have o: "\<forall>x. Outbound x \<in> set (transcript (snd (post rq env s))) \<longrightarrow>
                Outbound x \<in> set (transcript s)"
    unfolding p using attempts_transcript[of rq env "[0..<retries rq]" s] by auto
  have e: "send_result e = Inr m \<and> unanswered rq e \<longrightarrow>
             fst (attempt rq e r s') =
               (if r + 1 < retries rq then Continue
                else if fail rq
                then Done (Inl (LinkError (TimeoutMsg (name rq) (r + 1) (retries rq))))
                else Done (Inr None))
           \<and> clock (snd (attempt rq e r s')) =
               clock s' + timeout rq + (if r + 1 < retries rq then 3 else 0)
           \<and> sleeps (trace (snd (attempt rq e r s'))) =
               sleeps (trace s') @ (if r + 1 < retries rq then [3] else [])
           \<and> Outbound m \<notin> set (transcript (snd (attempt rq e r s')))"
    using attempt_unanswered[of e m rq r s'] attempt_outbound_deleted[of e m rq r s'] by blast
  show ?thesis using a b c d o e by blast
qed

lemma timeouts_run_out: "runs_out example_request env_timeouts"
  by (simp add: runs_out_def example_retries upt_conv_Cons env_timeouts_def unanswered_def)

text \<open>
  Three attempts of twenty seconds that are sent: 66 seconds pass. A rate limit of five
  seconds and two attempts of twenty seconds: 48 seconds pass. The second attempt of
  three goes on after its pause.
\<close>

theorem timeout_after_last_iteration_witness:
  "fst (post example_request env_timeouts start_state) = Inr None
   \<and> clock (snd (post example_request env_timeouts start_state)) = 1066
   \<and> waits (trace (snd (post example_request env_timeouts start_state))) = [20, 20, 20]
   \<and> fst (post example_request env_flood_first start_state) = Inr None
   \<and> clock (snd (post example_request env_flood_first start_state)) = 1048
   \<and> waits (trace (snd (post example_request env_flood_first start_state))) = [20, 20]
   \<and> fst (attempt example_request (env_timeouts 1) 1 start_state) = Continue
   \<and> clock (snd (attempt example_request (env_timeouts 1) 1 start_state)) = 1023
   \<and> Outbound 101 \<notin> set (transcript (snd (attempt example_request (env_timeouts 1) 1 start_state)))"
proof -
  have h1: "0 < retries example_request" by (simp add: example_retries)
  have al: "\<forall>r < retries example_request. \<exists>m. send_result (env_timeouts r) = Inr m"
    by (simp add: env_timeouts_def)
  have k: "clock start_state = 1000" "waits (trace start_state) = []"
    by (simp_all add: start_state_def)
  have r3: "replicate 3 (20::nat) = [20, 20, 20]" by (simp add: numeral_3_eq_3)
  have r2: "replicate 2 (20::nat) = [20, 20]" by (simp add: numeral_2_eq_2)
  have e1: "send_result (env_timeouts 1) = Inr 101 \<and> unanswered example_request (env_timeouts 1)"
    by (simp add: env_timeouts_def unanswered_def)
  note t1 = timeout_after_last_iteration[OF h1 start_state_miss timeouts_run_out,
      of "env_timeouts 1" 101 1 start_state]
  have a0: "fst (post example_request env_timeouts start_state) =
           (if fail example_request
            then Inl (LinkError (TimeoutMsg (name example_request) (retries example_request)
                   (retries example_request)))
            else Inr None)"
    using t1 by blast
  have a1: "clock (snd (post example_request env_timeouts start_state)) =
        clock start_state + retries example_request * timeout example_request
          + 3 * (retries example_request - 1)
      \<and> waits (trace (snd (post example_request env_timeouts start_state))) =
          waits (trace start_state) @ replicate (retries example_request) (timeout example_request)"
    using t1 al by blast
  have a: "fst (post example_request env_timeouts start_state) = Inr None
   \<and> clock (snd (post example_request env_timeouts start_state)) = 1066
   \<and> waits (trace (snd (post example_request env_timeouts start_state))) = [20, 20, 20]"
    using a0 a1 by (simp add: example_retries k r3)
  have c0: "fst (attempt example_request (env_timeouts 1) 1 start_state) =
               (if 1 + 1 < retries example_request then Continue
                else if fail example_request
                then Done (Inl (LinkError (TimeoutMsg (name example_request) (1 + 1)
                       (retries example_request))))
                else Done (Inr None))
           \<and> clock (snd (attempt example_request (env_timeouts 1) 1 start_state)) =
               clock start_state + timeout example_request
                 + (if 1 + 1 < retries example_request then 3 else 0)
           \<and> Outbound 101 \<notin> set (transcript (snd (attempt example_request (env_timeouts 1) 1 start_state)))"
    using t1 e1 by blast
  have c: "fst (attempt example_request (env_timeouts 1) 1 start_state) = Continue
   \<and> clock (snd (attempt example_request (env_timeouts 1) 1 start_state)) = 1023
   \<and> Outbound 101 \<notin> set (transcript (snd (attempt example_request (env_timeouts 1) 1 start_state)))"
    using c0 by (simp add: example_retries k)
  note t2 = timeout_after_last_iteration[OF h1 start_state_miss flood_first_runs_out,
      of "env_timeouts 1" 101 1 start_state]
  have b0: "fst (post example_request env_flood_first start_state) =
           (if fail example_request
            then Inl (LinkError (TimeoutMsg (name example_request) (retries example_request)
                   (retries example_request)))
            else Inr None)
       \<and> clock (snd (post example_request env_flood_first start_state)) =
           clock start_state
             + sum_list (map (iteration_time example_request env_flood_first)
                 [0..<retries example_request])
       \<and> waits (trace (snd (post example_request env_flood_first start_state))) =
           waits (trace start_state)
             @ replicate (length (sent_iterations env_flood_first [0..<retries example_request]))
                 (timeout example_request)"
    using t2 by blast
  have b: "fst (post example_request env_flood_first start_state) = Inr None
   \<and> clock (snd (post example_request env_flood_first start_state)) = 1048
   \<and> waits (trace (snd (post example_request env_flood_first start_state))) = [20, 20]"
    using b0 by (simp add: example_retries k r2 flood_first_time)
  show ?thesis using a b c by blast
qed










lemma message_handler_deletes:
  "chat_id ev = bot \<Longrightarrow> Inbound (message ev) \<notin> set (transcript (snd (message_handler rq ev st)))"
  by (simp add: message_handler_transcript)

text \<open>
  Claim C5 at an update whose \<^verbatim>\<open>chat_id\<close> is a number: the handler returns at
  the test \<^verbatim>\<open>event.chat_id != self.bot\<close>, before the \<^verbatim>\<open>try\<close>: the update is
  not inspected, cannot resolve the future, and its message stays in the chat.
\<close>

theorem handler_returns_on_numeric_chat:
  "message_handler rq (ev\<lparr>chat_id := PeerId n\<rparr>) st = st
   \<and> accepts rq (ev\<lparr>chat_id := PeerId n\<rparr>) = None
   \<and> deliver rq (fut, s) (ev\<lparr>chat_id := PeerId n\<rparr>) =
       (fut, s\<lparr>transcript := Inbound (message ev) # transcript s\<rparr>)"
  by (simp add: message_handler_def accepts_def deliver_def bot_def)

section \<open>Properties of the pool\<close>

subsection \<open>Release and the watchdog\<close>

lemma aexit_keys: "map fst (snd (aexit f ps pl)) = map fst pl"
proof (induction ps arbitrary: pl)
  case Nil
  then show ?case by simp
next
  case (Cons p ps)
  show ?case
  proof (cases "map_of pl p")
    case None
    then show ?thesis using Cons by simp
  next
    case (Some e)
    then have "p \<in> fst ` set pl" by (auto dest: map_of_SomeD intro: rev_image_eqI)
    then have k: "\<And>v. map fst (AList.update p v pl) = map fst pl"
      by (simp add: update_keys)
    show ?thesis
      using Some Cons k by (cases e) (simp_all add: unpack_def)
  qed
qed

lemma aexit_entry:
  assumes "map_of pl q = Some (Entry c r)"
  shows "\<exists>r'. map_of (snd (aexit f ps pl)) q = Some (Entry c r') \<and> r' \<le> r
           \<and> r - int (count_list ps q) \<le> r'"
  using assms
proof (induction ps arbitrary: pl r)
  case Nil
  then show ?case by simp
next
  case (Cons p ps)
  show ?case
  proof (cases "map_of pl p")
    case None
    then have "p \<noteq> q" using Cons.prems by auto
    then show ?thesis using None Cons.IH[OF Cons.prems] by simp
  next
    case (Some e)
    show ?thesis
    proof (cases e)
      case (Task t)
      then show ?thesis using Some Cons.prems by (auto simp: unpack_def)
    next
      case (Entry c' r0)
      let ?pl = "AList.update p (Entry c' (r0 - 1)) pl"
      show ?thesis
      proof (cases "p = q")
        case True
        then have e: "c' = c" "r0 = r" using Some Entry Cons.prems by simp_all
        have m: "map_of ?pl q = Some (Entry c (r - 1))" using True e by (simp add: update_conv')
        from Cons.IH[OF m] obtain r' where
          "map_of (snd (aexit f ps ?pl)) q = Some (Entry c r')" "r' \<le> r - 1"
          "r - 1 - int (count_list ps q) \<le> r'" by blast
        then show ?thesis using Some Entry True by (auto simp: unpack_def)
      next
        case False
        have m: "map_of ?pl q = Some (Entry c r)" using False Cons.prems by (simp add: update_conv')
        from Cons.IH[OF m] show ?thesis using Some Entry False by (auto simp: unpack_def)
      qed
    qed
  qed
qed

lemma watchdog_check_other:
  "q \<noteq> p \<Longrightarrow> map_of (fst (watchdog_check T pl cn q)) p = map_of cn p"
  by (auto simp: watchdog_check_def update_conv' delete_conv' split: option.splits entry.splits)

lemma watchdog_check_call:
  "snd (watchdog_check T pl cn q) \<Longrightarrow> \<exists>c r. map_of pl q = Some (Entry c r) \<and> r \<le> 0"
  by (auto simp: watchdog_check_def split: option.splits entry.splits if_splits)

lemma clean_error:
  "map_of pl q = Some (Entry c r) \<Longrightarrow> clean f pl q = Some err \<Longrightarrow> err = AttributeError"
  by (auto simp: clean_def unpack_def split: if_splits)

lemma scan_kills:
  assumes "p \<in> set ps" and "map_of pl p = Some (Entry c 0)" and "map_of cn p = Some k"
    and "T \<le> (k + 1) * 10"
  shows "fst (scan_phones f T pl ps cn) = Some AttributeError"
  using assms(1,3)
proof (induction ps arbitrary: cn)
  case Nil
  then show ?case by simp
next
  case (Cons q ps)
  obtain cn' call where w: "watchdog_check T pl cn q = (cn', call)"
    by (cases "watchdog_check T pl cn q") auto
  show ?case
  proof (cases "q = p")
    case True
    have "call" using w True assms(2,4) Cons.prems(2) by (auto simp: watchdog_check_def)
    moreover have "clean f pl p = Some AttributeError" using assms(2) by (simp add: clean_def unpack_def)
    ultimately show ?thesis using w True by simp
  next
    case False
    then have m: "p \<in> set ps" using Cons.prems(1) by simp
    have k': "map_of cn' p = Some k"
      using watchdog_check_other[OF False, of T pl cn] w Cons.prems(2) by simp
    note ih = Cons.IH[OF m k']
    show ?thesis
    proof (cases call)
      case False
      then show ?thesis using w ih by simp
    next
      case True
      then obtain c' r' where e: "map_of pl q = Some (Entry c' r')"
        using watchdog_check_call[of T pl cn q] w by auto
      show ?thesis
      proof (cases "clean f pl q")
        case None
        then show ?thesis using w True ih by simp
      next
        case (Some err)
        then show ?thesis using w True clean_error[OF e Some] by simp
      qed
    qed
  qed
qed

lemma wstep_scan_pool: "wstep f T Scan s = Some s' \<Longrightarrow> pool s' = pool s \<and> halted s' = halted s"
  by (auto split: wpc.splits prod.splits option.splits)

lemma wstep_keeps_pairs:
  assumes "wstep f T a s = Some s'" and "map_of (pool s) p = Some (Entry c r)"
  shows "\<exists>r'. map_of (pool s') p = Some (Entry c r')"
proof (cases a)
  case Scan
  then show ?thesis using assms wstep_scan_pool by auto
next
  case (NewTask q t)
  then show ?thesis using assms by (auto simp: update_conv' split: option.splits)
next
  case (LoginDone q cl)
  then show ?thesis using assms by (auto simp: update_conv' split: option.splits entry.splits)
next
  case (AddRef q)
  then show ?thesis using assms by (auto simp: update_conv' split: option.splits entry.splits)
next
  case (DropRef q)
  then show ?thesis using assms by (auto simp: update_conv' split: option.splits entry.splits)
next
  case Cancel
  then show ?thesis using assms by (auto split: wpc.splits)
next
  case Close
  then show ?thesis using assms by (auto split: wpc.splits option.splits)
qed

lemma wrun_keeps_pairs:
  assumes "wrun f T as s = Some s'" and "map_of (pool s) p = Some (Entry c r)"
  shows "\<exists>r'. map_of (pool s') p = Some (Entry c r')"
  using assms
proof (induction as arbitrary: s r)
  case Nil
  then show ?case by simp
next
  case (Cons a as)
  from Cons.prems(1) obtain s1 where s1: "wstep f T a s = Some s1" and r1: "wrun f T as s1 = Some s'"
    by (auto split: option.splits)
  from wstep_keeps_pairs[OF s1 Cons.prems(2)] obtain r1' where
    "map_of (pool s1) p = Some (Entry c r1')" by blast
  from Cons.IH[OF r1 this] show ?case .
qed

lemma wstep_scan_kills:
  assumes "wd s = Sleeping" and "map_of (pool s) p = Some (Entry c 0)"
    and "map_of (counter s) p = Some k" and "T \<le> (k + 1) * 10"
  shows "\<exists>cn. wstep f T Scan s = Some (s\<lparr>counter := cn, wd := Dead AttributeError\<rparr>)"
proof -
  have "p \<in> set (map fst (pool s))"
    using assms(2) by (auto dest: map_of_SomeD intro: rev_image_eqI)
  from scan_kills[OF this assms(2,3,4), of f]
  have "fst (watchdog_scan f T (pool s) (counter s)) = Some AttributeError"
    by (simp add: watchdog_scan_def)
  then obtain cn where "watchdog_scan f T (pool s) (counter s) = (Some AttributeError, cn)"
    by (cases "watchdog_scan f T (pool s) (counter s)") auto
  then show ?thesis using assms(1) by auto
qed

lemma dead_is_final:
  "wd s = Dead err \<Longrightarrow> wstep f T Scan s = None \<and> wstep f T Cancel s = None \<and> wstep f T Close s = None"
  by simp

lemma rep12: "replicate 12 x = [x, x, x, x, x, x, x, x, x, x, x, x]"
  by (simp add: numeral_eq_Suc)

lemma idle_schedule_run:
  "map_option (\<lambda>s. (pool s, wd s, counter s, halted s)) (wrun (\<lambda>t. False) 120 idle_schedule winit) =
     Some ([(''A'', Entry 7 0)], Dead AttributeError, [(''A'', 0)], [])"
  by (simp add: idle_schedule_def rep12 winit_def watchdog_scan_def watchdog_check_def clean_def
      unpack_def)

lemma idle_schedule_before:
  "map_option (\<lambda>s. (pool s, wd s, counter s, halted s))
     (wrun (\<lambda>t. False) 120 (butlast idle_schedule) winit) =
     Some ([(''A'', Entry 7 0)], Sleeping, [(''A'', 11)], [])"
  by (simp add: idle_schedule_def rep12 winit_def watchdog_scan_def watchdog_check_def clean_def
      unpack_def)


text \<open>
  Claim C8 on the code as it is. \<^verbatim>\<open>__aexit__\<close> keeps the keys of the pool and the
  client of every pair and only lowers counts, by at most the number of times the phone
  is released. But no pair ever leaves the pool: the scan in which the counter of a pair
  with count zero reaches the timeout calls \<^verbatim>\<open>clean\<close>, which raises
  \<^verbatim>\<open>AttributeError\<close> at \<^verbatim>\<open>client.stop()\<close>; the error ends the watchdog, which
  scans no more.
\<close>

theorem idle_session_is_never_evicted:
  "(wrun f T as s = Some s' \<and> map_of (pool s) p = Some (Entry c r) \<longrightarrow>
      (\<exists>r'. map_of (pool s') p = Some (Entry c r')))
 \<and> (wd s = Sleeping \<and> map_of (pool s) p = Some (Entry c 0) \<and> map_of (counter s) p = Some k
      \<and> T \<le> (k + 1) * 10 \<longrightarrow>
      (\<exists>cn. wstep f T Scan s = Some (s\<lparr>counter := cn, wd := Dead AttributeError\<rparr>)))
 \<and> (wd s = Dead err \<longrightarrow>
      wstep f T Scan s = None \<and> wstep f T Cancel s = None \<and> wstep f T Close s = None)
 \<and> map fst (snd (aexit f ps pl)) = map fst pl
 \<and> (map_of pl q = Some (Entry cl rf) \<longrightarrow>
      (\<exists>rf'. map_of (snd (aexit f ps pl)) q = Some (Entry cl rf') \<and> rf' \<le> rf
             \<and> rf - int (count_list ps q) \<le> rf'))"
proof -
  have a: "wrun f T as s = Some s' \<and> map_of (pool s) p = Some (Entry c r) \<longrightarrow>
      (\<exists>r'. map_of (pool s') p = Some (Entry c r'))"
    using wrun_keeps_pairs[of f T as s s' p c r] by blast
  have b: "wd s = Sleeping \<and> map_of (pool s) p = Some (Entry c 0) \<and> map_of (counter s) p = Some k
      \<and> T \<le> (k + 1) * 10 \<longrightarrow>
      (\<exists>cn. wstep f T Scan s = Some (s\<lparr>counter := cn, wd := Dead AttributeError\<rparr>))"
    using wstep_scan_kills[of s p c k T f] by blast
  have d: "wd s = Dead err \<longrightarrow>
      wstep f T Scan s = None \<and> wstep f T Cancel s = None \<and> wstep f T Close s = None"
    using dead_is_final[of s err f T] by blast
  have e: "map fst (snd (aexit f ps pl)) = map fst pl" by (rule aexit_keys)
  have g: "map_of pl q = Some (Entry cl rf) \<longrightarrow>
      (\<exists>rf'. map_of (snd (aexit f ps pl)) q = Some (Entry cl rf') \<and> rf' \<le> rf
             \<and> rf - int (count_list ps q) \<le> rf')"
    using aexit_entry[of pl q cl rf f ps] by blast
  show ?thesis using a b d e g by blast
qed

text \<open>
  Account \<open>A\<close> is logged in as client 7 and released. After eleven scans the counter is
  11; the twelfth scan ends the watchdog with \<^verbatim>\<open>AttributeError\<close>, and the pair is in
  the pool as before.
\<close>

theorem idle_session_is_never_evicted_witness:
  "aexit (\<lambda>t. False) [''A''] [(''A'', Entry 7 1)] = (None, [(''A'', Entry 7 0)])
   \<and> (\<exists>s s'. wrun (\<lambda>t. False) 120 (butlast idle_schedule) winit = Some s
        \<and> wd s = Sleeping \<and> map_of (counter s) ''A'' = Some 11
        \<and> map_of (pool s) ''A'' = Some (Entry 7 0)
        \<and> wstep (\<lambda>t. False) 120 Scan s = Some s' \<and> wd s' = Dead AttributeError
        \<and> map_of (pool s') ''A'' = Some (Entry 7 0)
        \<and> wstep (\<lambda>t. False) 120 Scan s' = None)"
proof -
  have a: "aexit (\<lambda>t. False) [''A''] [(''A'', Entry 7 1)] = (None, [(''A'', Entry 7 0)])"
    by (simp add: unpack_def)
  from idle_schedule_before obtain s where
    r: "wrun (\<lambda>t. False) 120 (butlast idle_schedule) winit = Some s"
    and f: "pool s = [(''A'', Entry 7 0)]" "wd s = Sleeping" "counter s = [(''A'', 11)]"
    by auto
  have h: "wd s = Sleeping \<and> map_of (pool s) ''A'' = Some (Entry 7 0)
      \<and> map_of (counter s) ''A'' = Some 11 \<and> (120::int) \<le> (11 + 1) * 10"
    using f by simp
  note t = idle_session_is_never_evicted[where f = "\<lambda>t. False" and T = 120 and s = s
      and p = "''A''" and c = 7 and k = 11]
  from t h obtain cn where
    st: "wstep (\<lambda>t. False) 120 Scan s = Some (s\<lparr>counter := cn, wd := Dead AttributeError\<rparr>)"
    by blast
  let ?s' = "s\<lparr>counter := cn, wd := Dead AttributeError\<rparr>"
  have d: "wd ?s' = Dead AttributeError" "map_of (pool ?s') ''A'' = Some (Entry 7 0)"
    using f by simp_all
  note t2 = idle_session_is_never_evicted[where f = "\<lambda>t. False" and T = 120 and s = ?s'
      and err = AttributeError]
  have n: "wstep (\<lambda>t. False) 120 Scan ?s' = None" using t2 d(1) by blast
  show ?thesis using a r h st d n by blast
qed

subsection \<open>Acquisition\<close>

text \<open>
  When every phone is written without whitespace, the start satisfies the invariant and
  every step keeps it.
\<close>

lemma ainv_init: "plain st \<Longrightarrow> ainv (ainit st accs)"
  by (simp add: ainv_def ainit_def holds_def given_def o_def)

lemma ainvI:
  assumes "plain (store s)" and "distinct (map fst (apool s))"
    and "\<And>t. t < length (tasks s) \<Longrightarrow> owner (tasks s ! t) < length (sessions s)"
    and "\<And>t. t < length (tasks s) \<Longrightarrow> lstatus (tasks s ! t) = Succeeded \<Longrightarrow>
           \<exists>r. map_of (apool s) (task_phone s t) = Some (Entry t r)"
    and "\<And>t. t < length (tasks s) \<Longrightarrow> lstatus (tasks s ! t) \<noteq> Succeeded \<Longrightarrow>
           map_of (apool s) (task_phone s t) = Some (Task t)"
    and "\<And>p. map_of (apool s) p = None \<Longrightarrow> holds s p = 0"
    and "\<And>p t. map_of (apool s) p = Some (Task t) \<Longrightarrow>
           t < length (tasks s) \<and> task_phone s t = p \<and> holds s p = 0"
    and "\<And>p c r. map_of (apool s) p = Some (Entry c r) \<Longrightarrow>
           c < length (tasks s) \<and> task_phone s c = p \<and> r = int (holds s p)"
    and "\<And>i. i < length (sessions s) \<Longrightarrow>
           map (task_phone s) (given (sessions s ! i)) = phones (sessions s ! i)"
    and "\<And>i c. i < length (sessions s) \<Longrightarrow> c \<in> set (given (sessions s ! i)) \<Longrightarrow>
           c < length (tasks s)"
    and "\<And>i t p. i < length (sessions s) \<Longrightarrow> apc (sessions s ! i) = Awaiting t p \<Longrightarrow>
           t < length (tasks s) \<and> task_phone s t = p \<and> todo (sessions s ! i) \<noteq> []"
  shows "ainv s"
  unfolding ainv_def
  using assms by (auto split: option.splits entry.splits)

lemma ainv_plain: "ainv s \<Longrightarrow> plain (store s)"
  by (simp add: ainv_def)

lemma ainv_distinct: "ainv s \<Longrightarrow> distinct (map fst (apool s))"
  by (simp add: ainv_def)

lemma ainv_owner: "ainv s \<Longrightarrow> t < length (tasks s) \<Longrightarrow> owner (tasks s ! t) < length (sessions s)"
  by (simp add: ainv_def)

lemma ainv_succeeded:
  "ainv s \<Longrightarrow> t < length (tasks s) \<Longrightarrow> lstatus (tasks s ! t) = Succeeded \<Longrightarrow>
     \<exists>r. map_of (apool s) (task_phone s t) = Some (Entry t r)"
  unfolding ainv_def by metis

lemma ainv_pending:
  "ainv s \<Longrightarrow> t < length (tasks s) \<Longrightarrow> lstatus (tasks s ! t) \<noteq> Succeeded \<Longrightarrow>
     map_of (apool s) (task_phone s t) = Some (Task t)"
  unfolding ainv_def by metis

lemma ainv_pool:
  assumes "ainv s"
  shows "case map_of (apool s) p of
                None \<Rightarrow> holds s p = 0
              | Some (Task t) \<Rightarrow> t < length (tasks s) \<and> task_phone s t = p \<and> holds s p = 0
              | Some (Entry c r) \<Rightarrow> c < length (tasks s) \<and> task_phone s c = p \<and> r = int (holds s p)"
  using assms unfolding ainv_def by blast

lemma ainv_none: "ainv s \<Longrightarrow> map_of (apool s) p = None \<Longrightarrow> holds s p = 0"
  using ainv_pool[of s p] by simp

lemma ainv_task:
  "ainv s \<Longrightarrow> map_of (apool s) p = Some (Task t) \<Longrightarrow>
     t < length (tasks s) \<and> task_phone s t = p \<and> holds s p = 0"
  using ainv_pool[of s p] by simp

lemma ainv_entry:
  "ainv s \<Longrightarrow> map_of (apool s) p = Some (Entry c r) \<Longrightarrow>
     c < length (tasks s) \<and> task_phone s c = p \<and> r = int (holds s p)"
  using ainv_pool[of s p] by simp

lemma ainv_given:
  "ainv s \<Longrightarrow> i < length (sessions s) \<Longrightarrow>
     map (task_phone s) (given (sessions s ! i)) = phones (sessions s ! i)"
  by (simp add: ainv_def)

lemma ainv_given_bound:
  "ainv s \<Longrightarrow> i < length (sessions s) \<Longrightarrow> c \<in> set (given (sessions s ! i)) \<Longrightarrow>
     c < length (tasks s)"
  by (simp add: ainv_def)

lemma ainv_awaiting:
  "ainv s \<Longrightarrow> i < length (sessions s) \<Longrightarrow> apc (sessions s ! i) = Awaiting t p \<Longrightarrow>
     t < length (tasks s) \<and> task_phone s t = p \<and> todo (sessions s ! i) \<noteq> []"
  unfolding ainv_def by blast

lemma sum_list_map_update:
  fixes f :: "'a \<Rightarrow> nat"
  assumes "i < length xs"
  shows "sum_list (map f (xs[i := x])) + f (xs ! i) = sum_list (map f xs) + f x"
  using assms
proof (induction xs arbitrary: i)
  case Nil
  then show ?case by simp
next
  case (Cons y ys)
  then show ?case by (cases i) auto
qed

lemma holds_same:
  assumes "i < length (sessions s)" and "phones c = phones (sessions s ! i)"
    and "sessions s' = (sessions s)[i := c]"
  shows "holds s' p = holds s p"
  using sum_list_map_update[OF assms(1), of "\<lambda>c. count_list (phones c) p" c] assms(2,3)
  by (simp add: holds_def)

lemma holds_more:
  assumes "i < length (sessions s)" and "phones c = phones (sessions s ! i) @ [q]"
    and "sessions s' = (sessions s)[i := c]"
  shows "holds s' p = holds s p + (if q = p then 1 else 0)"
  using sum_list_map_update[OF assms(1), of "\<lambda>c. count_list (phones c) p" c] assms(2,3)
  by (simp add: holds_def)

lemma holds_eq: "sessions s' = sessions s \<Longrightarrow> holds s' p = holds s p"
  by (simp add: holds_def)

lemma task_phone_eq:
  "store s' = store s \<Longrightarrow> tasks s' = tasks s \<Longrightarrow> task_phone s' t = task_phone s t"
  by (simp add: task_phone_def)

lemma ainv_session_pc:
  assumes inv: "ainv s" and i: "i < length (sessions s)"
    and ph: "phones c = phones (sessions s ! i)" and dq: "done_q c = done_q (sessions s ! i)"
    and aw: "\<And>t p. apc c = Awaiting t p \<Longrightarrow>
               t < length (tasks s) \<and> task_phone s t = p \<and> todo c \<noteq> []"
  shows "ainv (s\<lparr>sessions := (sessions s)[i := c]\<rparr>)"
proof -
  let ?s = "s\<lparr>sessions := (sessions s)[i := c]\<rparr>"
  have h: "\<And>p. holds ?s p = holds s p"
    by (rule holds_same[OF i ph]) simp
  have tp: "task_phone ?s = task_phone s" by (simp add: task_phone_def fun_eq_iff)
  have g: "given c = given (sessions s ! i)" using dq by (simp add: given_def)
  show ?thesis
  proof (rule ainvI)
    show "plain (store ?s)" using ainv_plain[OF inv] by simp
    show "distinct (map fst (apool ?s))" using ainv_distinct[OF inv] by simp
    show "\<And>t. t < length (tasks ?s) \<Longrightarrow> owner (tasks ?s ! t) < length (sessions ?s)"
      using ainv_owner[OF inv] by simp
    show "\<And>t. t < length (tasks ?s) \<Longrightarrow> lstatus (tasks ?s ! t) = Succeeded \<Longrightarrow>
           \<exists>r. map_of (apool ?s) (task_phone ?s t) = Some (Entry t r)"
      using ainv_succeeded[OF inv] by (simp add: tp)
    show "\<And>t. t < length (tasks ?s) \<Longrightarrow> lstatus (tasks ?s ! t) \<noteq> Succeeded \<Longrightarrow>
           map_of (apool ?s) (task_phone ?s t) = Some (Task t)"
      using ainv_pending[OF inv] by (simp add: tp)
    show "\<And>p. map_of (apool ?s) p = None \<Longrightarrow> holds ?s p = 0"
      using ainv_none[OF inv] by (simp add: h)
    show "\<And>p t. map_of (apool ?s) p = Some (Task t) \<Longrightarrow>
           t < length (tasks ?s) \<and> task_phone ?s t = p \<and> holds ?s p = 0"
      using ainv_task[OF inv] by (simp add: h tp)
    show "\<And>p c r. map_of (apool ?s) p = Some (Entry c r) \<Longrightarrow>
           c < length (tasks ?s) \<and> task_phone ?s c = p \<and> r = int (holds ?s p)"
      using ainv_entry[OF inv] by (simp add: h tp)
    show "\<And>j. j < length (sessions ?s) \<Longrightarrow>
           map (task_phone ?s) (given (sessions ?s ! j)) = phones (sessions ?s ! j)"
      using ainv_given[OF inv] i g ph tp by (auto simp: nth_list_update)
    show "\<And>j c. j < length (sessions ?s) \<Longrightarrow> c \<in> set (given (sessions ?s ! j)) \<Longrightarrow>
           c < length (tasks ?s)"
      using ainv_given_bound[OF inv] i g by (auto simp: nth_list_update split: if_splits)
    show "\<And>j t p. j < length (sessions ?s) \<Longrightarrow> apc (sessions ?s ! j) = Awaiting t p \<Longrightarrow>
           t < length (tasks ?s) \<and> task_phone ?s t = p \<and> todo (sessions ?s ! j) \<noteq> []"
      using ainv_awaiting[OF inv] aw i by (auto simp: nth_list_update tp split: if_splits)
  qed
qed

lemma given_snoc: "done_q c' = done_q c @ [Some x] \<Longrightarrow> given c' = given c @ [x]"
  by (simp add: given_def)

lemma given_snoc_none: "done_q c' = done_q c @ [None] \<Longrightarrow> given c' = given c"
  by (simp add: given_def)

lemma ainv_take_ref:
  assumes inv: "ainv s" and i: "i < length (sessions s)"
    and e: "map_of (apool s) p = Some (Entry c r)"
  shows "ainv (take_ref p c r rest i s)"
proof -
  let ?c = "(sessions s ! i)\<lparr>todo := rest, apc := Entering, phones := phones (sessions s ! i) @ [p],
           done_q := done_q (sessions s ! i) @ [Some c]\<rparr>"
  define s' where "s' = take_ref p c r rest i s"
  have ss: "sessions s' = (sessions s)[i := ?c]" by (simp add: s'_def take_ref_def)
  have pl: "map_of (apool s') = (map_of (apool s))(p \<mapsto> Entry c (r + 1))"
    by (simp add: s'_def take_ref_def update_conv')
  have ks: "map fst (apool s') = map fst (AList.update p (Entry c (r + 1)) (apool s))"
    by (simp add: s'_def take_ref_def)
  have tk: "tasks s' = tasks s" and st: "store s' = store s" by (simp_all add: s'_def take_ref_def)
  have h: "\<And>q. holds s' q = holds s q + (if p = q then 1 else 0)"
    by (rule holds_more[OF i _ ss]) simp
  have tp: "task_phone s' = task_phone s" by (simp add: task_phone_def fun_eq_iff tk st)
  have g: "given ?c = given (sessions s ! i) @ [c]" by (rule given_snoc) simp
  note ce = ainv_entry[OF inv e]
  have "ainv s'"
  proof (rule ainvI)
    show "plain (store s')" using ainv_plain[OF inv] by (simp add: st)
    show "distinct (map fst (apool s'))"
      using ainv_distinct[OF inv] by (simp add: ks distinct_update)
    show "\<And>t. t < length (tasks s') \<Longrightarrow> owner (tasks s' ! t) < length (sessions s')"
      using ainv_owner[OF inv] by (simp add: tk ss)
    show "\<And>t. t < length (tasks s') \<Longrightarrow> lstatus (tasks s' ! t) = Succeeded \<Longrightarrow>
           \<exists>r. map_of (apool s') (task_phone s' t) = Some (Entry t r)"
    proof -
      fix t assume a: "t < length (tasks s')" "lstatus (tasks s' ! t) = Succeeded"
      then have t: "t < length (tasks s)" and l: "lstatus (tasks s ! t) = Succeeded"
        by (simp_all add: tk)
      from ainv_succeeded[OF inv t l] obtain r0 where
        r0: "map_of (apool s) (task_phone s t) = Some (Entry t r0)" by blast
      show "\<exists>r. map_of (apool s') (task_phone s' t) = Some (Entry t r)"
      proof (cases "task_phone s t = p")
        case True
        then have ct: "c = t" using r0 e by simp
        have "map_of (apool s') (task_phone s' t) = Some (Entry c (r + 1))"
          using True by (simp add: pl tp)
        then show ?thesis using ct by auto
      next
        case False
        then show ?thesis using r0 by (simp add: pl tp)
      qed
    qed
    show "\<And>t. t < length (tasks s') \<Longrightarrow> lstatus (tasks s' ! t) \<noteq> Succeeded \<Longrightarrow>
           map_of (apool s') (task_phone s' t) = Some (Task t)"
      using ainv_pending[OF inv] e by (auto simp: tk tp pl)
    show "\<And>q. map_of (apool s') q = None \<Longrightarrow> holds s' q = 0"
      using ainv_none[OF inv] by (auto simp: h pl split: if_splits)
    show "\<And>q t. map_of (apool s') q = Some (Task t) \<Longrightarrow>
           t < length (tasks s') \<and> task_phone s' t = q \<and> holds s' q = 0"
      using ainv_task[OF inv] by (auto simp: h pl tk tp split: if_splits)
    show "\<And>q c' r'. map_of (apool s') q = Some (Entry c' r') \<Longrightarrow>
           c' < length (tasks s') \<and> task_phone s' c' = q \<and> r' = int (holds s' q)"
      using ainv_entry[OF inv] ce by (auto simp: h pl tk tp split: if_splits)
    show "\<And>j. j < length (sessions s') \<Longrightarrow>
           map (task_phone s') (given (sessions s' ! j)) = phones (sessions s' ! j)"
      using ainv_given[OF inv] i g ce by (auto simp: ss tp nth_list_update)
    show "\<And>j c'. j < length (sessions s') \<Longrightarrow> c' \<in> set (given (sessions s' ! j)) \<Longrightarrow>
           c' < length (tasks s')"
      using ainv_given_bound[OF inv] i g ce by (auto simp: ss tk nth_list_update split: if_splits)
    show "\<And>j t q. j < length (sessions s') \<Longrightarrow> apc (sessions s' ! j) = Awaiting t q \<Longrightarrow>
           t < length (tasks s') \<and> task_phone s' t = q \<and> todo (sessions s' ! j) \<noteq> []"
      using ainv_awaiting[OF inv] i by (auto simp: ss tk tp nth_list_update split: if_splits)
  qed
  then show ?thesis by (simp add: s'_def)
qed

lemma ainv_new_task:
  assumes inv: "ainv s" and i: "i < length (sessions s)"
    and e: "map_of (apool s) (store s a) = None"
    and en: "apc (sessions s ! i) = Entering"
  shows "ainv (s\<lparr>apool := AList.update (store s a) (Task (length (tasks s))) (apool s),
                 tasks := tasks s @ [\<lparr>owner = i, account = a, lstatus = Created\<rparr>],
                 sessions := (sessions s)[i := (sessions s ! i)\<lparr>todo := rest\<rparr>]\<rparr>)"
proof -
  let ?c = "(sessions s ! i)\<lparr>todo := rest\<rparr>"
  define s' where "s' = s\<lparr>apool := AList.update (store s a) (Task (length (tasks s))) (apool s),
                 tasks := tasks s @ [\<lparr>owner = i, account = a, lstatus = Created\<rparr>],
                 sessions := (sessions s)[i := (sessions s ! i)\<lparr>todo := rest\<rparr>]\<rparr>"
  have ss: "sessions s' = (sessions s)[i := ?c]" by (simp add: s'_def)
  have pl: "map_of (apool s') = (map_of (apool s))(store s a \<mapsto> Task (length (tasks s)))"
    by (simp add: s'_def update_conv')
  have ks: "map fst (apool s') = map fst (AList.update (store s a) (Task (length (tasks s))) (apool s))"
    by (simp add: s'_def)
  have tk: "tasks s' = tasks s @ [\<lparr>owner = i, account = a, lstatus = Created\<rparr>]"
    and st: "store s' = store s" by (simp_all add: s'_def)
  have h: "\<And>q. holds s' q = holds s q"
    by (rule holds_same[OF i _ ss]) simp
  have tp: "\<And>t. t < length (tasks s) \<Longrightarrow> task_phone s' t = task_phone s t"
    by (simp add: task_phone_def nth_append tk st)
  have tpn: "task_phone s' (length (tasks s)) = store s a"
    by (simp add: task_phone_def tk st)
  have g: "given ?c = given (sessions s ! i)" by (simp add: given_def)
  have nopend: "\<And>t. t < length (tasks s) \<Longrightarrow> task_phone s t \<noteq> store s a"
  proof
    fix t assume t: "t < length (tasks s)" and eq: "task_phone s t = store s a"
    show False
      using ainv_succeeded[OF inv t] ainv_pending[OF inv t] e eq
      by (cases "lstatus (tasks s ! t) = Succeeded") auto
  qed
  have "ainv s'"
  proof (rule ainvI)
    show "plain (store s')" using ainv_plain[OF inv] by (simp add: st)
    show "distinct (map fst (apool s'))"
      using ainv_distinct[OF inv] by (simp add: ks distinct_update)
    show "\<And>t. t < length (tasks s') \<Longrightarrow> owner (tasks s' ! t) < length (sessions s')"
      using ainv_owner[OF inv] i by (auto simp: nth_append tk ss)
    show "\<And>t. t < length (tasks s') \<Longrightarrow> lstatus (tasks s' ! t) = Succeeded \<Longrightarrow>
           \<exists>r. map_of (apool s') (task_phone s' t) = Some (Entry t r)"
    proof -
      fix t assume a: "t < length (tasks s')" "lstatus (tasks s' ! t) = Succeeded"
      then have t: "t < length (tasks s)" by (auto simp: tk nth_append split: if_splits)
      then have "lstatus (tasks s ! t) = Succeeded" using a by (simp add: tk nth_append)
      from ainv_succeeded[OF inv t this] nopend[OF t] tp[OF t]
      show "\<exists>r. map_of (apool s') (task_phone s' t) = Some (Entry t r)"
        unfolding pl by auto
    qed
    show "\<And>t. t < length (tasks s') \<Longrightarrow> lstatus (tasks s' ! t) \<noteq> Succeeded \<Longrightarrow>
           map_of (apool s') (task_phone s' t) = Some (Task t)"
    proof -
      fix t assume a: "t < length (tasks s')" "lstatus (tasks s' ! t) \<noteq> Succeeded"
      show "map_of (apool s') (task_phone s' t) = Some (Task t)"
      proof (cases "t < length (tasks s)")
        case True
        then have "lstatus (tasks s ! t) \<noteq> Succeeded" using a by (simp add: tk nth_append)
        from ainv_pending[OF inv True this] nopend[OF True] tp[OF True]
        show ?thesis unfolding pl by auto
      next
        case False
        then have "t = length (tasks s)" using a by (simp add: tk)
        then show ?thesis using tpn unfolding pl by simp
      qed
    qed
    show "\<And>q. map_of (apool s') q = None \<Longrightarrow> holds s' q = 0"
      using ainv_none[OF inv] unfolding pl h by (auto split: if_splits)
    show "\<And>q t. map_of (apool s') q = Some (Task t) \<Longrightarrow>
           t < length (tasks s') \<and> task_phone s' t = q \<and> holds s' q = 0"
    proof -
      fix q t assume a: "map_of (apool s') q = Some (Task t)"
      show "t < length (tasks s') \<and> task_phone s' t = q \<and> holds s' q = 0"
      proof (cases "q = store s a")
        case True
        then have "t = length (tasks s)" using a unfolding pl by simp
        then show ?thesis using tpn True ainv_none[OF inv e] by (simp add: h tk)
      next
        case False
        then have "map_of (apool s) q = Some (Task t)" using a unfolding pl by simp
        from ainv_task[OF inv this] show ?thesis using tp[of t] by (simp add: h tk)
      qed
    qed
    show "\<And>q c r. map_of (apool s') q = Some (Entry c r) \<Longrightarrow>
           c < length (tasks s') \<and> task_phone s' c = q \<and> r = int (holds s' q)"
    proof -
      fix q c r assume a: "map_of (apool s') q = Some (Entry c r)"
      then have "map_of (apool s) q = Some (Entry c r)" unfolding pl by (auto split: if_splits)
      from ainv_entry[OF inv this] show "c < length (tasks s') \<and> task_phone s' c = q \<and> r = int (holds s' q)"
        using tp[of c] by (simp add: h tk)
    qed
    show "\<And>j. j < length (sessions s') \<Longrightarrow>
           map (task_phone s') (given (sessions s' ! j)) = phones (sessions s' ! j)"
    proof -
      fix j assume j: "j < length (sessions s')"
      then have j': "j < length (sessions s)" by (simp add: ss)
      have gj: "given (sessions s' ! j) = given (sessions s ! j)"
        and pj: "phones (sessions s' ! j) = phones (sessions s ! j)"
        using i g by (auto simp: ss nth_list_update)
      have "map (task_phone s') (given (sessions s ! j)) = map (task_phone s) (given (sessions s ! j))"
        using ainv_given_bound[OF inv j'] tp by simp
      then show "map (task_phone s') (given (sessions s' ! j)) = phones (sessions s' ! j)"
        using ainv_given[OF inv j'] gj pj by simp
    qed
    show "\<And>j c. j < length (sessions s') \<Longrightarrow> c \<in> set (given (sessions s' ! j)) \<Longrightarrow>
           c < length (tasks s')"
    proof -
      fix j c assume j: "j < length (sessions s')" and c: "c \<in> set (given (sessions s' ! j))"
      have j': "j < length (sessions s)" using j by (simp add: ss)
      have gj: "given (sessions s' ! j) = given (sessions s ! j)"
        using i g by (auto simp: ss nth_list_update)
      show "c < length (tasks s')" using ainv_given_bound[OF inv j'] c gj by (fastforce simp: tk)
    qed
    show "\<And>j t q. j < length (sessions s') \<Longrightarrow> apc (sessions s' ! j) = Awaiting t q \<Longrightarrow>
           t < length (tasks s') \<and> task_phone s' t = q \<and> todo (sessions s' ! j) \<noteq> []"
    proof -
      fix j t q assume j: "j < length (sessions s')" and a: "apc (sessions s' ! j) = Awaiting t q"
      have j': "j < length (sessions s)" using j by (simp add: ss)
      show "t < length (tasks s') \<and> task_phone s' t = q \<and> todo (sessions s' ! j) \<noteq> []"
      proof (cases "j = i")
        case True
        then have "apc (sessions s ! i) = Awaiting t q" using a i by (simp add: ss)
        then show ?thesis using en by simp
      next
        case False
        then have "apc (sessions s ! j) = Awaiting t q" using a by (simp add: ss)
        from ainv_awaiting[OF inv j' this] show ?thesis using False tp[of t] by (simp add: ss tk)
      qed
    qed
  qed
  then show ?thesis by (simp add: s'_def)
qed

lemma ainv_tasks_status:
  assumes inv: "ainv s" and t: "t < length (tasks s)"
    and l: "lstatus (tasks s ! t) \<noteq> Succeeded" and l': "l' \<noteq> Succeeded"
    and st: "store s' = store s" and pl: "apool s' = apool s"
    and tk: "tasks s' = (tasks s)[t := (tasks s ! t)\<lparr>lstatus := l'\<rparr>]"
    and ss: "sessions s' = (sessions s)[i := c]" and i: "i < length (sessions s)"
    and ph: "phones c = phones (sessions s ! i)" and gv: "given c = given (sessions s ! i)"
    and ap: "apc c = apc (sessions s ! i)" and td: "todo c = todo (sessions s ! i)"
  shows "ainv s'"
proof -
  have h: "\<And>p. holds s' p = holds s p" by (rule holds_same[OF i ph ss])
  have tp: "task_phone s' = task_phone s"
    using t by (auto simp: task_phone_def fun_eq_iff tk st nth_list_update)
  have ls: "\<And>u. u < length (tasks s) \<Longrightarrow>
      (lstatus (tasks s' ! u) = Succeeded) = (lstatus (tasks s ! u) = Succeeded)"
    using l l' t by (auto simp: tk nth_list_update)
  have ow: "\<And>u. u < length (tasks s) \<Longrightarrow> owner (tasks s' ! u) = owner (tasks s ! u)"
    using t by (auto simp: tk nth_list_update)
  show ?thesis
  proof (rule ainvI)
    show "plain (store s')" using ainv_plain[OF inv] by (simp add: st)
    show "distinct (map fst (apool s'))" using ainv_distinct[OF inv] by (simp add: pl)
    show "\<And>u. u < length (tasks s') \<Longrightarrow> owner (tasks s' ! u) < length (sessions s')"
      using ainv_owner[OF inv] ow by (simp add: tk ss)
    show "\<And>u. u < length (tasks s') \<Longrightarrow> lstatus (tasks s' ! u) = Succeeded \<Longrightarrow>
           \<exists>r. map_of (apool s') (task_phone s' u) = Some (Entry u r)"
      using ainv_succeeded[OF inv] ls by (simp add: tp pl tk)
    show "\<And>u. u < length (tasks s') \<Longrightarrow> lstatus (tasks s' ! u) \<noteq> Succeeded \<Longrightarrow>
           map_of (apool s') (task_phone s' u) = Some (Task u)"
      using ainv_pending[OF inv] ls by (simp add: tp pl tk)
    show "\<And>p. map_of (apool s') p = None \<Longrightarrow> holds s' p = 0"
      using ainv_none[OF inv] by (simp add: h pl)
    show "\<And>p u. map_of (apool s') p = Some (Task u) \<Longrightarrow>
           u < length (tasks s') \<and> task_phone s' u = p \<and> holds s' p = 0"
      using ainv_task[OF inv] by (simp add: h tp pl tk)
    show "\<And>p c r. map_of (apool s') p = Some (Entry c r) \<Longrightarrow>
           c < length (tasks s') \<and> task_phone s' c = p \<and> r = int (holds s' p)"
      using ainv_entry[OF inv] by (simp add: h tp pl tk)
    show "\<And>j. j < length (sessions s') \<Longrightarrow>
           map (task_phone s') (given (sessions s' ! j)) = phones (sessions s' ! j)"
      using ainv_given[OF inv] i gv ph by (auto simp: ss tp nth_list_update)
    show "\<And>j c. j < length (sessions s') \<Longrightarrow> c \<in> set (given (sessions s' ! j)) \<Longrightarrow>
           c < length (tasks s')"
      using ainv_given_bound[OF inv] i gv by (auto simp: ss tk nth_list_update split: if_splits)
    show "\<And>j u p. j < length (sessions s') \<Longrightarrow> apc (sessions s' ! j) = Awaiting u p \<Longrightarrow>
           u < length (tasks s') \<and> task_phone s' u = p \<and> todo (sessions s' ! j) \<noteq> []"
    proof -
      fix j u p assume j: "j < length (sessions s')" and a: "apc (sessions s' ! j) = Awaiting u p"
      have j': "j < length (sessions s)" using j by (simp add: ss)
      have "apc (sessions s ! j) = Awaiting u p \<and> todo (sessions s' ! j) = todo (sessions s ! j)"
        using a i ap td by (cases "j = i") (simp_all add: ss)
      then show "u < length (tasks s') \<and> task_phone s' u = p \<and> todo (sessions s' ! j) \<noteq> []"
        using ainv_awaiting[OF inv j', of u p] by (simp add: tk tp)
    qed
  qed
qed

lemma ainv_LoginStart:
  assumes inv: "ainv s" and st: "astep (LoginStart t) s = Some s'"
  shows "ainv s'"
proof -
  from st have t: "t < length (tasks s)" and l: "lstatus (tasks s ! t) = Created"
    by (auto split: if_splits)
  have pn: "normalise (store s (account (tasks s ! t))) = store s (account (tasks s ! t))"
    using ainv_plain[OF inv] by (simp add: plain_def)
  from st t l have s': "s' = s\<lparr>store := (store s)(account (tasks s ! t) := normalise (store s (account (tasks s ! t)))),
                tasks := (tasks s)[t := (tasks s ! t)\<lparr>lstatus := Running\<rparr>]\<rparr>"
    by simp
  have a: "store s' = store s" unfolding s' using pn by simp
  have b: "apool s' = apool s" "tasks s' = (tasks s)[t := (tasks s ! t)\<lparr>lstatus := Running\<rparr>]"
    unfolding s' by simp_all
  have o: "owner (tasks s ! t) < length (sessions s)" by (rule ainv_owner[OF inv t])
  have c: "sessions s' = (sessions s)[owner (tasks s ! t) := sessions s ! owner (tasks s ! t)]"
    unfolding s' by simp
  show ?thesis
    by (rule ainv_tasks_status[OF inv t _ _ a b(1) b(2) c o]) (simp_all add: l)
qed

lemma ainv_LoginFail:
  assumes inv: "ainv s" and st: "astep (LoginFail t) s = Some s'"
  shows "ainv s'"
proof -
  from st have t: "t < length (tasks s)" and l: "lstatus (tasks s ! t) = Running"
    by (auto split: if_splits)
  let ?o = "owner (tasks s ! t)"
  let ?c = "(sessions s ! ?o)\<lparr>done_q := done_q (sessions s ! ?o) @ [None]\<rparr>"
  from st t l have s': "s' = s\<lparr>tasks := (tasks s)[t := (tasks s ! t)\<lparr>lstatus := Failed\<rparr>],
                sessions := (sessions s)[?o := ?c]\<rparr>"
    by simp
  have a: "store s' = store s" "apool s' = apool s"
    "tasks s' = (tasks s)[t := (tasks s ! t)\<lparr>lstatus := Failed\<rparr>]"
    "sessions s' = (sessions s)[?o := ?c]"
    unfolding s' by simp_all
  have o: "?o < length (sessions s)" by (rule ainv_owner[OF inv t])
  have g: "given ?c = given (sessions s ! ?o)" by (rule given_snoc_none) simp
  show ?thesis
    by (rule ainv_tasks_status[OF inv t _ _ a(1) a(2) a(3) a(4) o _ g]) (simp_all add: l)
qed

lemma ainv_LoginOk:
  assumes inv: "ainv s" and st: "astep (LoginOk t) s = Some s'"
  shows "ainv s'"
proof -
  from st have t: "t < length (tasks s)" and l: "lstatus (tasks s ! t) = Running"
    by (auto split: if_splits)
  let ?o = "owner (tasks s ! t)"
  define p where "p = task_phone s t"
  let ?c = "(sessions s ! ?o)\<lparr>phones := phones (sessions s ! ?o) @ [p],
                    done_q := done_q (sessions s ! ?o) @ [Some t]\<rparr>"
  from st t l have s': "s' = s\<lparr>apool := AList.update p (Entry t 1) (apool s),
                tasks := (tasks s)[t := (tasks s ! t)\<lparr>lstatus := Succeeded\<rparr>],
                sessions := (sessions s)[?o := ?c]\<rparr>"
    by (simp add: p_def task_phone_def)
  have sto: "store s' = store s"
    and tk: "tasks s' = (tasks s)[t := (tasks s ! t)\<lparr>lstatus := Succeeded\<rparr>]"
    and ss: "sessions s' = (sessions s)[?o := ?c]"
    and ks: "map fst (apool s') = map fst (AList.update p (Entry t 1) (apool s))"
    unfolding s' by simp_all
  have pl: "map_of (apool s') = (map_of (apool s))(p \<mapsto> Entry t 1)"
    unfolding s' by (simp add: update_conv')
  have o: "?o < length (sessions s)" by (rule ainv_owner[OF inv t])
  have old: "map_of (apool s) p = Some (Task t)"
    using ainv_pending[OF inv t] l by (simp add: p_def)
  have h0: "holds s p = 0" using ainv_task[OF inv old] by simp
  have h: "\<And>q. holds s' q = holds s q + (if p = q then 1 else 0)"
    by (rule holds_more[OF o _ ss]) simp
  have tp: "task_phone s' = task_phone s"
    using t by (auto simp: task_phone_def fun_eq_iff tk sto nth_list_update)
  have g: "given ?c = given (sessions s ! ?o) @ [t]" by (rule given_snoc) simp
  have ls: "\<And>u. u < length (tasks s) \<Longrightarrow> u \<noteq> t \<Longrightarrow> lstatus (tasks s' ! u) = lstatus (tasks s ! u)"
    by (simp add: tk)
  have lt: "lstatus (tasks s' ! t) = Succeeded" using t by (simp add: tk)
  have ow: "\<And>u. u < length (tasks s) \<Longrightarrow> owner (tasks s' ! u) = owner (tasks s ! u)"
    using t by (auto simp: tk nth_list_update)
  show ?thesis
  proof (rule ainvI)
    show "plain (store s')" using ainv_plain[OF inv] by (simp add: sto)
    show "distinct (map fst (apool s'))" using ainv_distinct[OF inv] by (simp add: ks distinct_update)
    show "\<And>u. u < length (tasks s') \<Longrightarrow> owner (tasks s' ! u) < length (sessions s')"
      using ainv_owner[OF inv] ow by (simp add: tk ss)
    show "\<And>u. u < length (tasks s') \<Longrightarrow> lstatus (tasks s' ! u) = Succeeded \<Longrightarrow>
           \<exists>r. map_of (apool s') (task_phone s' u) = Some (Entry u r)"
    proof -
      fix u assume a: "u < length (tasks s')" "lstatus (tasks s' ! u) = Succeeded"
      then have u: "u < length (tasks s)" by (simp add: tk)
      show "\<exists>r. map_of (apool s') (task_phone s' u) = Some (Entry u r)"
      proof (cases "u = t")
        case True
        then show ?thesis by (simp add: pl tp p_def)
      next
        case False
        then have "lstatus (tasks s ! u) = Succeeded" using a ls[OF u] by simp
        from ainv_succeeded[OF inv u this] obtain r where
          r: "map_of (apool s) (task_phone s u) = Some (Entry u r)" by blast
        then have "task_phone s u \<noteq> p" using old by auto
        then show ?thesis using r by (simp add: pl tp)
      qed
    qed
    show "\<And>u. u < length (tasks s') \<Longrightarrow> lstatus (tasks s' ! u) \<noteq> Succeeded \<Longrightarrow>
           map_of (apool s') (task_phone s' u) = Some (Task u)"
    proof -
      fix u assume a: "u < length (tasks s')" "lstatus (tasks s' ! u) \<noteq> Succeeded"
      then have u: "u < length (tasks s)" by (simp add: tk)
      have ne: "u \<noteq> t" using a lt by auto
      then have "lstatus (tasks s ! u) \<noteq> Succeeded" using a ls[OF u] by simp
      from ainv_pending[OF inv u this] have r: "map_of (apool s) (task_phone s u) = Some (Task u)" .
      then have "task_phone s u \<noteq> p" using old ne by auto
      then show "map_of (apool s') (task_phone s' u) = Some (Task u)" using r by (simp add: pl tp)
    qed
    show "\<And>q. map_of (apool s') q = None \<Longrightarrow> holds s' q = 0"
      using ainv_none[OF inv] by (auto simp: h pl split: if_splits)
    show "\<And>q u. map_of (apool s') q = Some (Task u) \<Longrightarrow>
           u < length (tasks s') \<and> task_phone s' u = q \<and> holds s' q = 0"
      using ainv_task[OF inv] by (auto simp: h pl tk tp split: if_splits)
    show "\<And>q c r. map_of (apool s') q = Some (Entry c r) \<Longrightarrow>
           c < length (tasks s') \<and> task_phone s' c = q \<and> r = int (holds s' q)"
      using ainv_entry[OF inv] t h0 by (auto simp: h pl tk tp p_def split: if_splits)
    show "\<And>j. j < length (sessions s') \<Longrightarrow>
           map (task_phone s') (given (sessions s' ! j)) = phones (sessions s' ! j)"
      using ainv_given[OF inv] o g by (auto simp: ss tp nth_list_update p_def)
    show "\<And>j c. j < length (sessions s') \<Longrightarrow> c \<in> set (given (sessions s' ! j)) \<Longrightarrow>
           c < length (tasks s')"
      using ainv_given_bound[OF inv] o g t by (auto simp: ss tk nth_list_update split: if_splits)
    show "\<And>j u q. j < length (sessions s') \<Longrightarrow> apc (sessions s' ! j) = Awaiting u q \<Longrightarrow>
           u < length (tasks s') \<and> task_phone s' u = q \<and> todo (sessions s' ! j) \<noteq> []"
      using ainv_awaiting[OF inv] o by (auto simp: ss tk tp nth_list_update split: if_splits)
  qed
qed


lemma ainv_LoginCrash:
  assumes inv: "ainv s" and st: "astep (LoginCrash t err) s = Some s'"
  shows "ainv s'"
proof -
  from st have t: "t < length (tasks s)" and l: "lstatus (tasks s ! t) = Running"
    by (auto split: if_splits)
  from st t l have s': "s' = s\<lparr>tasks := (tasks s)[t := (tasks s ! t)\<lparr>lstatus := Crashed err\<rparr>]\<rparr>"
    by simp
  have a: "store s' = store s" "apool s' = apool s"
    "tasks s' = (tasks s)[t := (tasks s ! t)\<lparr>lstatus := Crashed err\<rparr>]"
    unfolding s' by simp_all
  have o: "owner (tasks s ! t) < length (sessions s)" by (rule ainv_owner[OF inv t])
  have c: "sessions s' = (sessions s)[owner (tasks s ! t) := sessions s ! owner (tasks s ! t)]"
    unfolding s' by simp
  show ?thesis
    by (rule ainv_tasks_status[OF inv t _ _ a(1) a(2) a(3) c o]) (simp_all add: l)
qed

lemma ainv_Enter:
  assumes inv: "ainv s" and st: "astep (Enter i) s = Some s'"
  shows "ainv s'"
proof -
  from st have i: "i < length (sessions s)" and en: "apc (sessions s ! i) = Entering"
    by (auto split: if_splits)
  show ?thesis
  proof (cases "todo (sessions s ! i)")
    case Nil
    then have "s' = s\<lparr>sessions := (sessions s)[i := (sessions s ! i)\<lparr>apc := Returned\<rparr>]\<rparr>"
      using st i en by simp
    then show ?thesis using ainv_session_pc[OF inv i, of "(sessions s ! i)\<lparr>apc := Returned\<rparr>"]
      by simp
  next
    case (Cons a rest)
    show ?thesis
    proof (cases "map_of (apool s) (store s a)")
      case None
      then have "s' = s\<lparr>apool := AList.update (store s a) (Task (length (tasks s))) (apool s),
                 tasks := tasks s @ [\<lparr>owner = i, account = a, lstatus = Created\<rparr>],
                 sessions := (sessions s)[i := (sessions s ! i)\<lparr>todo := rest\<rparr>]\<rparr>"
        using st i en Cons by simp
      then show ?thesis using ainv_new_task[OF inv i None en] by simp
    next
      case (Some e)
      show ?thesis
      proof (cases e)
        case (Task t)
        then have s': "s' = s\<lparr>sessions :=
                            (sessions s)[i := (sessions s ! i)\<lparr>apc := Awaiting t (store s a)\<rparr>]\<rparr>"
          using st i en Cons Some by simp
        have "map_of (apool s) (store s a) = Some (Task t)" using Some Task by simp
        from ainv_task[OF inv this] show ?thesis
          unfolding s'
          using ainv_session_pc[OF inv i, of "(sessions s ! i)\<lparr>apc := Awaiting t (store s a)\<rparr>"] Cons
          by simp
      next
        case (Entry c r)
        then have s': "s' = take_ref (store s a) c r rest i s"
          using st i en Cons Some by simp
        have "map_of (apool s) (store s a) = Some (Entry c r)" using Some Entry by simp
        from ainv_take_ref[OF inv i this] show ?thesis unfolding s' .
      qed
    qed
  qed
qed

lemma ainv_woken_read:
  assumes inv: "ainv s" and i: "i < length (sessions s)" and st: "woken_read p rest i s = Some s'"
  shows "ainv s'"
proof (cases "map_of (apool s) p")
  case None
  then have "s' = s\<lparr>sessions := (sessions s)[i := (sessions s ! i)\<lparr>apc := Raised KeyError\<rparr>]\<rparr>"
    using st by (simp add: woken_read_def)
  then show ?thesis
    using ainv_session_pc[OF inv i, of "(sessions s ! i)\<lparr>apc := Raised KeyError\<rparr>"] by simp
next
  case (Some e)
  show ?thesis
  proof (cases e)
    case (Task t')
    then have "s' = s\<lparr>sessions :=
                            (sessions s)[i := (sessions s ! i)\<lparr>todo := rest, apc := Entering\<rparr>]\<rparr>"
      using st Some by (simp add: woken_read_def)
    then show ?thesis
      using ainv_session_pc[OF inv i, of "(sessions s ! i)\<lparr>todo := rest, apc := Entering\<rparr>"]
      by simp
  next
    case (Entry c r)
    then have s': "s' = take_ref p c r rest i s"
      using st Some by (simp add: woken_read_def)
    have "map_of (apool s) p = Some (Entry c r)" using Some Entry by simp
    from ainv_take_ref[OF inv i this] show ?thesis unfolding s' .
  qed
qed

lemma ainv_Woken:
  assumes inv: "ainv s" and st: "astep (Woken i) s = Some s'"
  shows "ainv s'"
proof -
  from st obtain t p a rest where i: "i < length (sessions s)"
    and aw: "apc (sessions s ! i) = Awaiting t p" and td: "todo (sessions s ! i) = a # rest"
    and t: "t < length (tasks s)"
    by (auto split: if_splits apc.splits list.splits)
  show ?thesis
  proof (cases "lstatus (tasks s ! t)")
    case Created
    then show ?thesis using st i aw td t by simp
  next
    case Running
    then show ?thesis using st i aw td t by simp
  next
    case Succeeded
    then have "woken_read p rest i s = Some s'" using st i aw td t by simp
    then show ?thesis by (rule ainv_woken_read[OF inv i])
  next
    case Failed
    then have "woken_read p rest i s = Some s'" using st i aw td t by simp
    then show ?thesis by (rule ainv_woken_read[OF inv i])
  next
    case (Crashed err)
    then have "s' = s\<lparr>sessions := (sessions s)[i := (sessions s ! i)\<lparr>apc := Raised err\<rparr>]\<rparr>"
      using st i aw td t by simp
    then show ?thesis
      using ainv_session_pc[OF inv i, of "(sessions s ! i)\<lparr>apc := Raised err\<rparr>"] by simp
  qed
qed

lemma ainv_step:
  assumes "ainv s" and "astep a s = Some s'"
  shows "ainv s'"
proof (cases a)
  case (Enter i) then show ?thesis using assms ainv_Enter by blast
next
  case (Woken i) then show ?thesis using assms ainv_Woken by blast
next
  case (LoginStart t) then show ?thesis using assms ainv_LoginStart by blast
next
  case (LoginOk t) then show ?thesis using assms ainv_LoginOk by blast
next
  case (LoginFail t) then show ?thesis using assms ainv_LoginFail by blast
next
  case (LoginCrash t err) then show ?thesis using assms ainv_LoginCrash by blast
qed

lemma ainv_run:
  assumes "ainv s" and "arun as s = Some s'"
  shows "ainv s'"
  using assms
proof (induction as arbitrary: s)
  case Nil
  then show ?case by simp
next
  case (Cons a as)
  then show ?case using ainv_step by (auto split: option.splits)
qed

text \<open>At most one login task for a phone.\<close>

lemma one_task_per_phone:
  assumes inv: "ainv s" and t: "t < length (tasks s)" and u: "u < length (tasks s)"
    and eq: "task_phone s t = task_phone s u"
  shows "t = u"
proof -
  have a: "map_of (apool s) (task_phone s t) = Some (Task t)
           \<or> (\<exists>r. map_of (apool s) (task_phone s t) = Some (Entry t r))"
    using ainv_succeeded[OF inv t] ainv_pending[OF inv t] by blast
  have b: "map_of (apool s) (task_phone s u) = Some (Task u)
           \<or> (\<exists>r. map_of (apool s) (task_phone s u) = Some (Entry u r))"
    using ainv_succeeded[OF inv u] ainv_pending[OF inv u] by blast
  have b': "map_of (apool s) (task_phone s t) = Some (Task u)
           \<or> (\<exists>r. map_of (apool s) (task_phone s t) = Some (Entry u r))"
    unfolding eq by (rule b)
  show ?thesis using a b' by auto
qed

lemma given_phone:
  assumes inv: "ainv s" and i: "i < length (sessions s)" and c: "c \<in> set (given (sessions s ! i))"
  shows "c < length (tasks s) \<and> task_phone s c \<in> set (phones (sessions s ! i))"
proof -
  have "task_phone s c \<in> set (map (task_phone s) (given (sessions s ! i)))" using c by simp
  then show ?thesis using ainv_given[OF inv i] ainv_given_bound[OF inv i c] by simp
qed

lemma phone_given:
  assumes inv: "ainv s" and i: "i < length (sessions s)" and p: "p \<in> set (phones (sessions s ! i))"
  shows "\<exists>c \<in> set (given (sessions s ! i)). c < length (tasks s) \<and> task_phone s c = p"
proof -
  have "p \<in> set (map (task_phone s) (given (sessions s ! i)))" using p ainv_given[OF inv i] by simp
  then obtain c where "c \<in> set (given (sessions s ! i))" "task_phone s c = p" by auto
  then show ?thesis using ainv_given_bound[OF inv i] by blast
qed

lemma woken_gets_client:
  assumes inv: "ainv s" and i: "i < length (sessions s)"
    and aw: "apc (sessions s ! i) = Awaiting t p"
    and l: "lstatus (tasks s ! t) = Succeeded"
  shows "\<exists>r. map_of (apool s) p = Some (Entry t r)
           \<and> astep (Woken i) s = Some (take_ref p t r (tl (todo (sessions s ! i))) i s)"
proof -
  from ainv_awaiting[OF inv i aw] have t: "t < length (tasks s)" and tp: "task_phone s t = p"
    and td: "todo (sessions s ! i) \<noteq> []" by simp_all
  from ainv_succeeded[OF inv t l] tp obtain r where r: "map_of (apool s) p = Some (Entry t r)"
    by auto
  obtain a rest where ar: "todo (sessions s ! i) = a # rest" using td by (cases "todo (sessions s ! i)") auto
  have "astep (Woken i) s = Some (take_ref p t r (tl (todo (sessions s ! i))) i s)"
    using i aw l t r ar by (simp add: woken_read_def)
  then show ?thesis using r by blast
qed

text \<open>
  For phones written without whitespace, in every state that a schedule reaches from the
  start: no two login tasks have the same phone; the clients that the sessions have been
  given for one phone are one and the same; the count of a pair is the number of times
  the sessions hold its phone; and a session that awaits a login that has succeeded is,
  when woken, given the client of that login and adds one to the count.
\<close>

lemma plain_phones_share_one_login:
  assumes pl: "plain st" and run: "arun as (ainit st accs) = Some s"
  shows "(\<forall>t u. t < length (tasks s) \<and> u < length (tasks s) \<and> task_phone s t = task_phone s u
            \<longrightarrow> t = u)
       \<and> (\<forall>i j c d. i < length (sessions s) \<and> j < length (sessions s)
             \<and> c \<in> set (given (sessions s ! i)) \<and> d \<in> set (given (sessions s ! j))
             \<and> task_phone s c = task_phone s d \<longrightarrow> c = d)
       \<and> (\<forall>p c r. map_of (apool s) p = Some (Entry c r) \<longrightarrow> r = int (holds s p))
       \<and> (\<forall>i t p. i < length (sessions s) \<and> apc (sessions s ! i) = Awaiting t p
             \<and> lstatus (tasks s ! t) = Succeeded \<longrightarrow>
             (\<exists>r. map_of (apool s) p = Some (Entry t r)
                \<and> astep (Woken i) s = Some (take_ref p t r (tl (todo (sessions s ! i))) i s)))"
proof -
  have inv: "ainv s" by (rule ainv_run[OF ainv_init[OF pl] run])
  have a: "\<forall>t u. t < length (tasks s) \<and> u < length (tasks s) \<and> task_phone s t = task_phone s u
            \<longrightarrow> t = u"
    using one_task_per_phone[OF inv] by blast
  have b: "\<forall>i j c d. i < length (sessions s) \<and> j < length (sessions s)
             \<and> c \<in> set (given (sessions s ! i)) \<and> d \<in> set (given (sessions s ! j))
             \<and> task_phone s c = task_phone s d \<longrightarrow> c = d"
    using one_task_per_phone[OF inv] ainv_given_bound[OF inv] by blast
  have c: "\<forall>p c r. map_of (apool s) p = Some (Entry c r) \<longrightarrow> r = int (holds s p)"
    using ainv_entry[OF inv] by blast
  have d: "\<forall>i t p. i < length (sessions s) \<and> apc (sessions s ! i) = Awaiting t p
             \<and> lstatus (tasks s ! t) = Succeeded \<longrightarrow>
             (\<exists>r. map_of (apool s) p = Some (Entry t r)
                \<and> astep (Woken i) s = Some (take_ref p t r (tl (todo (sessions s ! i))) i s))"
    using woken_gets_client[OF inv] by blast
  show ?thesis using a b c d by blast
qed

lemma normalise_blank: "normalise ''+86 138'' = ''+86138''"
  by (simp add: normalise_def whitespace_def)

lemma normalise_plain: "normalise ''+86138'' = ''+86138''"
  by (simp add: normalise_def whitespace_def)

text \<open>
  Two sessions acquire the account with the phone \<^verbatim>\<open>+86138\<close>, the second while the
  login of the first is in flight: one login, the same client 0 for both, a count of 2.
\<close>

lemma plain_phone_example:
  "map_option (\<lambda>s. (apool s, map lstatus (tasks s), map given (sessions s),
       map phones (sessions s), map apc (sessions s)))
     (arun early_reader (ainit plain_store [[0], [0]])) =
   Some ([(''+86138'', Entry 0 2)], [Succeeded], [[0], [0]],
     [[''+86138''], [''+86138'']], [Returned, Returned])"
  by (simp add: early_reader_def ainit_def plain_store_def normalise_plain take_ref_def given_def
      woken_read_def)

text \<open>
  Claim C2 at an account whose phone is written \<^verbatim>\<open>+86 138\<close>. The placeholder task is
  stored under the phone as written, \<^verbatim>\<open>login\<close> rewrites the phone of the account
  without the blank, and \<^verbatim>\<open>loginer\<close> stores the pair under the rewritten phone. A
  second session that has read the phone before the rewriting awaits the task, finds the
  task again under its key when woken, and is given no client: the count stays 1. A
  second session that reads the phone after the rewriting finds no entry and starts a
  second login: the sessions are given the different clients 0 and 1, and the pair of
  the first login is overwritten by the pair of the second with count 1.
\<close>

theorem blank_phone_splits_acquirers:
  "map_option (\<lambda>s. (apool s, map lstatus (tasks s), map given (sessions s),
       map phones (sessions s), map apc (sessions s)))
     (arun early_reader (ainit blank_store [[0], [0]])) =
   Some ([(''+86 138'', Task 0), (''+86138'', Entry 0 1)], [Succeeded], [[0], []],
     [[''+86138''], []], [Returned, Returned])
 \<and> map_option (\<lambda>s. (apool s, map lstatus (tasks s), map given (sessions s),
       map phones (sessions s), map apc (sessions s)))
     (arun late_reader (ainit blank_store [[0], [0]])) =
   Some ([(''+86 138'', Task 0), (''+86138'', Entry 1 1)], [Succeeded, Succeeded], [[0], [1]],
     [[''+86138''], [''+86138'']], [Returned, Returned])"
  by (simp add: early_reader_def late_reader_def ainit_def blank_store_def normalise_blank
      normalise_plain take_ref_def given_def woken_read_def)

end
